theory Spec2Isabelle
  imports Main
begin

section \<open>JavaScript values\<close>

text \<open>
  The client is JavaScript, so one type holds every value that flows through it: what
  \<^verbatim>\<open>JSON.parse\<close> produces, what the cache returns (\<^verbatim>\<open>undefined\<close> on a miss) and what
  callers pass. Numbers are modelled as integers: every number the orchestration looks at
  is an id, a page number or an HTTP status. An object is the list of its own properties
  in insertion order, with distinct names.
\<close>

datatype jsval =
    Undefined
  | Null
  | Bool bool
  | Num int
  | Str string
  | Arr "jsval list"
  | Obj "(string \<times> jsval) list"

text \<open>Truthiness, as \<^verbatim>\<open>if (x)\<close> and \<^verbatim>\<open>!x\<close> test it.\<close>

fun truthy :: "jsval \<Rightarrow> bool" where
  "truthy Undefined = False"
| "truthy Null = False"
| "truthy (Bool b) = b"
| "truthy (Num n) = (n \<noteq> 0)"
| "truthy (Str s) = (s \<noteq> [])"
| "truthy (Arr xs) = True"
| "truthy (Obj ps) = True"

subsection \<open>Numbers as decimal strings\<close>

definition digit_char :: "nat \<Rightarrow> char" where
  "digit_char d = char_of (48 + d)"

fun show_nat :: "nat \<Rightarrow> string" where
  "show_nat n = (if n < 10 then [digit_char n] else show_nat (n div 10) @ [digit_char (n mod 10)])"

declare show_nat.simps [simp del]

definition show_int :: "int \<Rightarrow> string" where
  "show_int i = (if i < 0 then CHR ''-'' # show_nat (nat (- i)) else show_nat (nat i))"

text \<open>
  \<^verbatim>\<open>Array.prototype.join\<close>: the elements' string forms with the separator between them;
  \<^verbatim>\<open>null\<close> and \<^verbatim>\<open>undefined\<close> elements give the empty string.
\<close>

fun intercalate :: "string \<Rightarrow> string list \<Rightarrow> string" where
  "intercalate sep [] = []"
| "intercalate sep [x] = x"
| "intercalate sep (x # y # ys) = x @ sep @ intercalate sep (y # ys)"

text \<open>
  \<^verbatim>\<open>ToString\<close>, which template literals (\<^verbatim>\<open>`${baseKey}#${ids}`\<close>), property access
  (\<^verbatim>\<open>objectLookup[ids[i]]\<close>) and \<^verbatim>\<open>join\<close> apply to a value.
\<close>

fun to_string :: "jsval \<Rightarrow> string" where
  "to_string Undefined = ''undefined''"
| "to_string Null = ''null''"
| "to_string (Bool b) = (if b then ''true'' else ''false'')"
| "to_string (Num n) = show_int n"
| "to_string (Str s) = s"
| "to_string (Arr xs) =
     intercalate '','' (map (\<lambda>x. if x = Undefined \<or> x = Null then [] else to_string x) xs)"
| "to_string (Obj ps) = ''[object Object]''"

definition js_join :: "jsval list \<Rightarrow> string" where
  "js_join xs = to_string (Arr xs)"

subsection \<open>Objects and the order of their keys\<close>

text \<open>
  A property name that is the canonical decimal form of an integer below \<open>2^32 - 1\<close> is an
  array index. \<^verbatim>\<open>Object.keys\<close> and \<^verbatim>\<open>JSON.stringify\<close> visit the array-index names first,
  in ascending numeric order, and the other names after them in insertion order.
\<close>

definition is_digit :: "char \<Rightarrow> bool" where
  "is_digit c = (48 \<le> (of_char c :: nat) \<and> (of_char c :: nat) \<le> 57)"

definition parse_decimal :: "string \<Rightarrow> int" where
  "parse_decimal s = foldl (\<lambda>a c. 10 * a + (of_char c - 48)) 0 s"

definition array_index :: "string \<Rightarrow> int option" where
  "array_index s =
     (if s \<noteq> [] \<and> list_all is_digit s \<and> (length s = 1 \<or> hd s \<noteq> CHR ''0'')
         \<and> parse_decimal s < 4294967295
      then Some (parse_decimal s) else None)"

definition get_prop :: "(string \<times> 'a) list \<Rightarrow> string \<Rightarrow> 'a option" where
  "get_prop ps k = map_of ps k"

text \<open>\<^verbatim>\<open>o[k] = v\<close>: an existing property keeps its place, a new one goes last.\<close>

fun set_prop :: "(string \<times> 'a) list \<Rightarrow> string \<Rightarrow> 'a \<Rightarrow> (string \<times> 'a) list" where
  "set_prop [] k v = [(k, v)]"
| "set_prop ((k', v') # ps) k v =
     (if k' = k then (k, v) # ps else (k', v') # set_prop ps k v)"

definition index_props :: "(string \<times> 'a) list \<Rightarrow> (int \<times> string \<times> 'a) list" where
  "index_props ps =
     concat (map (\<lambda>(k, v). case array_index k of Some n \<Rightarrow> [(n, k, v)] | None \<Rightarrow> []) ps)"

definition name_props :: "(string \<times> 'a) list \<Rightarrow> (string \<times> 'a) list" where
  "name_props ps = filter (\<lambda>(k, v). array_index k = None) ps"

definition own_props :: "(string \<times> 'a) list \<Rightarrow> (string \<times> 'a) list" where
  "own_props ps = map snd (sort_key fst (index_props ps)) @ name_props ps"

text \<open>\<^verbatim>\<open>Object.keys(o).map(key => o[key])\<close>\<close>

definition object_values :: "(string \<times> 'a) list \<Rightarrow> 'a list" where
  "object_values ps = map snd (own_props ps)"

text \<open>\<^verbatim>\<open>x.id\<close> on a value that is neither \<^verbatim>\<open>null\<close> nor \<^verbatim>\<open>undefined\<close>.\<close>

fun id_of :: "jsval \<Rightarrow> jsval" where
  "id_of (Obj ps) = (case get_prop ps ''id'' of Some v \<Rightarrow> v | None \<Rightarrow> Undefined)"
| "id_of v = Undefined"

subsection \<open>\<^verbatim>\<open>JSON.stringify\<close>\<close>

definition hex_char :: "nat \<Rightarrow> char" where
  "hex_char d = (if d < 10 then char_of (48 + d) else char_of (87 + d))"

text \<open>
  The escapes of \<^verbatim>\<open>JSON.stringify\<close>: the double quote (code 34), the backslash (code 92)
  and the control characters; every other character stands for itself.
\<close>

definition json_escape :: "char \<Rightarrow> string" where
  "json_escape c =
     (let n = (of_char c :: nat) in
      if n = 34 then [CHR 0x5C, CHR 0x22]
      else if n = 92 then [CHR 0x5C, CHR 0x5C]
      else if n = 8 then CHR 0x5C # ''b''
      else if n = 9 then CHR 0x5C # ''t''
      else if n = 10 then CHR 0x5C # ''n''
      else if n = 12 then CHR 0x5C # ''f''
      else if n = 13 then CHR 0x5C # ''r''
      else if n < 32 then CHR 0x5C # ''u00'' @ [hex_char (n div 16), hex_char (n mod 16)]
      else [c])"

definition json_quote :: "string \<Rightarrow> string" where
  "json_quote s = CHR 0x22 # concat (map json_escape s) @ [CHR 0x22]"

text \<open>
  A property whose value is \<^verbatim>\<open>undefined\<close> is left out of an object and written
  \<^verbatim>\<open>null\<close> in an array; the properties come in the order of \<open>own_props\<close>. At top level
  \<^verbatim>\<open>JSON.stringify(undefined)\<close> is \<^verbatim>\<open>undefined\<close>, which a template literal prints as such.
\<close>

fun stringify :: "jsval \<Rightarrow> string" where
  "stringify Undefined = ''undefined''"
| "stringify Null = ''null''"
| "stringify (Bool b) = (if b then ''true'' else ''false'')"
| "stringify (Num n) = show_int n"
| "stringify (Str s) = json_quote s"
| "stringify (Arr xs) =
     ''['' @ intercalate '','' (map (\<lambda>x. if x = Undefined then ''null'' else stringify x) xs) @ '']''"
| "stringify (Obj ps) =
     ''{'' @ intercalate '',''
        (map (\<lambda>(k, s). json_quote k @ '':'' @ s)
          (own_props (map (\<lambda>(k, v). (k, stringify v)) (filter (\<lambda>(k, v). v \<noteq> Undefined) ps))))
      @ ''}''"

section \<open>The client and its collaborators\<close>

text \<open>
  The repository holds several revisions of the client. The model follows the revision
  whose \<^verbatim>\<open>_apiRequest(path, params, apiKey)\<close> and
  \<^verbatim>\<open>_apiDetailsRequest(path, ids, params, apiKey)\<close> take a parameter object and an API
  key, the most complete one. The older revision in \<^verbatim>\<open>src/gw2api.js\<close> differs where it
  matters below in two places: its \<^verbatim>\<open>_request\<close> throws on every status but 200, and its
  \<^verbatim>\<open>_idListToParams\<close> has a \<^verbatim>\<open>throw\<close> for a value that is neither an array nor an integer,
  which \<^verbatim>\<open>_apiDetailsRequest\<close> calls inside its promise chain, after \<^verbatim>\<open>_findInCache\<close>.

  The errors the code raises or receives:
  \<^item> \<open>HttpError status body\<close> is
    \<^verbatim>\<open>new Error(`{ httpStatusCode : ${status}, responseBody : ${body} }`)\<close>;
  \<^item> \<open>ParseError body\<close> is \<^verbatim>\<open>new Error("Error parsing JSON response: " + body)\<close>;
  \<^item> \<open>TypeError\<close> is what reading a property of \<^verbatim>\<open>null\<close> or \<^verbatim>\<open>undefined\<close> throws;
  \<^item> \<open>TransportError\<close> is a rejection of the HTTP library itself.
\<close>

datatype error =
    HttpError nat string
  | ParseError string
  | TypeError
  | TransportError string

text \<open>
  A promise settles in one of three ways that a caller can tell apart: it resolves with a
  value, it resolves with an \<^verbatim>\<open>Error\<close> object as its value, or it rejects.
\<close>

datatype outcome =
    Resolved jsval
  | ResolvedError error
  | Rejected error

record request =
  url :: string
  qs :: "(string \<times> jsval) list"
  headers :: "(string \<times> string) list"

record response =
  statusCode :: nat
  response_headers :: "(string \<times> string) list"
  body :: string

record meta =
  pageSize :: "string option"
  pageTotal :: "string option"
  resultCount :: "string option"
  resultTotal :: "string option"
  httpStatus :: nat

record request_result =
  meta :: meta
  data :: jsval

text \<open>
  The two collaborators that are not part of the client: the HTTP library
  (\<^verbatim>\<open>request-promise\<close>, called with \<^verbatim>\<open>simple: false\<close> and
  \<^verbatim>\<open>resolveWithFullResponse: true\<close>, so that it resolves whatever the status and rejects
  only when the exchange itself fails) and \<^verbatim>\<open>JSON.parse\<close>, which fails on a malformed body.
\<close>

record collaborators =
  transport :: "request \<Rightarrow> error + response"
  jsonDecode :: "string \<Rightarrow> jsval option"

datatype event =
    CacheGet string
  | CacheSet string jsval nat
  | TransportGet request

record config =
  defaultLang :: string
  cacheTimeout :: nat
  maxCacheObjects :: nat

text \<open>
  The client: its configuration, the entries of its cache and the configured time to live
  and size bound of the cache. \<open>trace\<close> is not a field of the source: it records, in order,
  every call the client makes to the cache and to the transport, so that what a call did
  can be stated. Expiry and eviction are the cache library's; no entry expires or is
  evicted in the model.
\<close>

record client =
  config :: config
  store_max :: nat
  store_ttl :: nat
  entries :: "string \<rightharpoonup> jsval"
  trace :: "event list"

text \<open>
  The constructor; an absent option is falsy, like \<open>0\<close> and the empty string, and
  \<^verbatim>\<open>||\<close> replaces all of them by the default.
\<close>

definition constructor :: "config \<Rightarrow> client" where
  "constructor cfg =
     (let cfg' = \<lparr> defaultLang = (if defaultLang cfg = [] then ''en'' else defaultLang cfg),
                   cacheTimeout = (if cacheTimeout cfg = 0 then 1800 else cacheTimeout cfg),
                   maxCacheObjects = (if maxCacheObjects cfg = 0 then 1000 else maxCacheObjects cfg) \<rparr>
      in \<lparr> config = cfg', store_max = maxCacheObjects cfg', store_ttl = cacheTimeout cfg',
           entries = Map.empty, trace = [] \<rparr>)"

text \<open>\<^verbatim>\<open>this.cache.get(key)\<close> resolves with the entry, or with \<^verbatim>\<open>undefined\<close>.\<close>

definition cache_get :: "client \<Rightarrow> string \<Rightarrow> jsval \<times> client" where
  "cache_get c key =
     ((case entries c key of Some v \<Rightarrow> v | None \<Rightarrow> Undefined),
      c\<lparr>trace := trace c @ [CacheGet key]\<rparr>)"

text \<open>\<^verbatim>\<open>this.cache.set(key, object)\<close>: no time to live is passed, the store's own applies.\<close>

definition cache_set :: "client \<Rightarrow> string \<Rightarrow> jsval \<Rightarrow> client" where
  "cache_set c key v =
     c\<lparr>entries := (entries c)(key \<mapsto> v), trace := trace c @ [CacheSet key v (store_ttl c)]\<rparr>"

section \<open>The request layer\<close>

definition jsonParse :: "collaborators \<Rightarrow> string \<Rightarrow> error + jsval" where
  "jsonParse col jsonString =
     (case jsonDecode col jsonString of
        Some v \<Rightarrow> Inr v
      | None \<Rightarrow> Inl (ParseError jsonString))"

text \<open>
  \<^verbatim>\<open>URL.format\<close> with the fixed protocol and host and the path \<^verbatim>\<open>`/${path}`\<close>; the
  percent-escaping that \<^verbatim>\<open>URL.format\<close> applies to a path is not modelled.
\<close>

definition buildURL :: "string \<Rightarrow> string" where
  "buildURL path = ''https://api.guildwars2.com/v2'' @ ''/'' @ path"

text \<open>An API key is a string or absent; \<^verbatim>\<open>if (apiKey)\<close> is false for the empty string too.\<close>

definition has_key :: "string option \<Rightarrow> bool" where
  "has_key apiKey = (case apiKey of Some k \<Rightarrow> k \<noteq> [] | None \<Rightarrow> False)"

definition request :: "collaborators \<Rightarrow> client \<Rightarrow> string \<Rightarrow> (string \<times> jsval) list
    \<Rightarrow> string option \<Rightarrow> (error + request_result) \<times> client" where
  "request col c path parameters apiKey =
     (let options = \<lparr> url = buildURL path, qs = parameters,
                       headers = (if has_key apiKey
                                  then [(''Authorization'', ''Bearer '' @ the apiKey)] else []) \<rparr>;
          c' = c\<lparr>trace := trace c @ [TransportGet options]\<rparr>
      in case transport col options of
           Inl e \<Rightarrow> (Inl e, c')
         | Inr response \<Rightarrow>
             if statusCode response \<noteq> 200 \<and> statusCode response \<noteq> 206
             then (Inl (HttpError (statusCode response) (body response)), c')
             else (case jsonParse col (body response) of
                     Inl e \<Rightarrow> (Inl e, c')
                   | Inr d \<Rightarrow>
                       (Inr \<lparr> meta = \<lparr> pageSize = map_of (response_headers response) ''X-Page-Size'',
                                        pageTotal = map_of (response_headers response) ''X-Page-Total'',
                                        resultCount = map_of (response_headers response) ''X-Result-Count'',
                                        resultTotal = map_of (response_headers response) ''X-Result-Total'',
                                        httpStatus = statusCode response \<rparr>,
                              data = d \<rparr>, c')))"

section \<open>Cache access\<close>

definition findInCacheSimple :: "client \<Rightarrow> string \<Rightarrow> jsval \<times> client" where
  "findInCacheSimple c baseKey = cache_get c baseKey"

text \<open>The loop of \<open>findInCache\<close>: one lookup per key, in order; \<^verbatim>\<open>Promise.all\<close> keeps the order.\<close>

fun get_all :: "client \<Rightarrow> string list \<Rightarrow> jsval list \<times> client" where
  "get_all c [] = ([], c)"
| "get_all c (k # ks) =
     (let (v, c1) = cache_get c k; (vs, c2) = get_all c1 ks in (v # vs, c2))"

definition findInCache :: "client \<Rightarrow> string \<Rightarrow> jsval \<Rightarrow> jsval \<times> client" where
  "findInCache c baseKey ids =
     (if \<not> truthy ids then findInCacheSimple c baseKey
      else case ids of
             Arr xs \<Rightarrow>
               (let (vs, c') = get_all c (map (\<lambda>x. baseKey @ ''#'' @ to_string x) xs)
                in (Arr vs, c'))
           | _ \<Rightarrow> cache_get c (baseKey @ ''#'' @ to_string ids))"

definition setCacheObject :: "client \<Rightarrow> string \<Rightarrow> jsval \<Rightarrow> client" where
  "setCacheObject c key object = cache_set c key object"

text \<open>
  \<^verbatim>\<open>objects.sort((a, b) => a.id - b.id)\<close>. \<^verbatim>\<open>sort\<close> moves \<^verbatim>\<open>undefined\<close> elements to the end
  without calling the comparator, and calls it on every other element as soon as there are
  two of them, so a \<^verbatim>\<open>null\<close> among them throws. When every id is a number the result is the
  elements in ascending id order, elements of equal id staying in place. When no id is a
  number every comparison is \<^verbatim>\<open>NaN\<close> and the order stays. For an array that mixes the two
  (or whose ids are strings that read as numbers) the language leaves the order to the
  implementation; the model keeps the order, and no theorem below is about such an array.
\<close>

fun id_number :: "jsval \<Rightarrow> int option" where
  "id_number x = (case id_of x of Num n \<Rightarrow> Some n | _ \<Rightarrow> None)"

definition sort_by_id :: "jsval list \<Rightarrow> error + jsval list" where
  "sort_by_id xs =
     (let ds = filter (\<lambda>x. x \<noteq> Undefined) xs; us = filter (\<lambda>x. x = Undefined) xs
      in if 2 \<le> length ds \<and> Null \<in> set ds then Inl TypeError
         else if list_all (\<lambda>x. id_number x \<noteq> None) ds
         then Inr (sort_key (\<lambda>x. the (id_number x)) ds @ us)
         else Inr (ds @ us))"

text \<open>The loop of \<open>setCacheObjects\<close>; \<^verbatim>\<open>objects[i].id\<close> throws on \<^verbatim>\<open>null\<close> and \<^verbatim>\<open>undefined\<close>.\<close>

fun set_all :: "client \<Rightarrow> string \<Rightarrow> jsval list \<Rightarrow> error option \<times> client" where
  "set_all c baseKey [] = (None, c)"
| "set_all c baseKey (x # xs) =
     (if x = Null \<or> x = Undefined then (Some TypeError, c)
      else set_all (setCacheObject c (baseKey @ ''#'' @ to_string (id_of x)) x) baseKey xs)"

text \<open>
  \<open>setCacheObjects\<close> sorts the array it is given in place, and its caller goes on to read that
  array: the result carries the value of \<^verbatim>\<open>objects\<close> after the call.
\<close>

definition setCacheObjects :: "client \<Rightarrow> string \<Rightarrow> jsval \<Rightarrow> (error + jsval) \<times> client" where
  "setCacheObjects c baseKey objects =
     (case objects of
        Arr xs \<Rightarrow>
          (case sort_by_id xs of
             Inl e \<Rightarrow> (Inl e, c)
           | Inr ys \<Rightarrow>
               (case set_all c baseKey ys of
                  (Some e, c') \<Rightarrow> (Inl e, c')
                | (None, c') \<Rightarrow> (Inr (Arr ys), c')))
      | Null \<Rightarrow> (Inl TypeError, c)
      | Undefined \<Rightarrow> (Inl TypeError, c)
      | _ \<Rightarrow> (Inr objects, setCacheObject c (baseKey @ ''#'' @ to_string (id_of objects)) objects))"

definition idListToParams :: "jsval \<Rightarrow> (string \<times> jsval) list" where
  "idListToParams ids =
     (case ids of
        Arr xs \<Rightarrow> [(''ids'', Str (js_join xs))]
      | _ \<Rightarrow> [(''id'', ids)])"

section \<open>The collection request\<close>

text \<open>
  The second argument of \<open>apiRequest\<close> and the third of \<open>apiDetailsRequest\<close> is a parameter
  object, or an API key put in its place, or absent.
\<close>

datatype params_arg =
    ParamsObject "(string \<times> jsval) list"
  | ParamsKey string
  | ParamsAbsent

text \<open>
  \<^verbatim>\<open>if (!(params instanceof Object)) { apiKey = params; params = {}; }\<close> and
  \<^verbatim>\<open>if (!params.lang) params.lang = this.config.defaultLang\<close>
\<close>

definition shift_params :: "params_arg \<Rightarrow> string option \<Rightarrow> (string \<times> jsval) list \<times> string option" where
  "shift_params params apiKey =
     (case params of
        ParamsObject ps \<Rightarrow> (ps, apiKey)
      | ParamsKey k \<Rightarrow> ([], Some k)
      | ParamsAbsent \<Rightarrow> ([], None))"

definition with_lang :: "client \<Rightarrow> (string \<times> jsval) list \<Rightarrow> (string \<times> jsval) list" where
  "with_lang c ps =
     (if \<not> truthy (case get_prop ps ''lang'' of Some v \<Rightarrow> v | None \<Rightarrow> Undefined)
      then set_prop ps ''lang'' (Str (defaultLang (config c)))
      else ps)"

definition cacheKey :: "string \<Rightarrow> string option \<Rightarrow> (string \<times> jsval) list \<Rightarrow> string" where
  "cacheKey path apiKey params =
     (if has_key apiKey
      then path @ ''#apiKey:'' @ the apiKey @ ''#params:'' @ stringify (Obj params)
      else path @ ''#params:'' @ stringify (Obj params))"

definition apiRequest :: "collaborators \<Rightarrow> client \<Rightarrow> string \<Rightarrow> params_arg \<Rightarrow> string option
    \<Rightarrow> outcome \<times> client" where
  "apiRequest col c path params0 apiKey0 =
     (let (params1, apiKey) = shift_params params0 apiKey0;
          params = with_lang c params1;
          key = cacheKey path apiKey params;
          (cacheResult, c1) = findInCache c key Undefined
      in if truthy cacheResult then (Resolved cacheResult, c1)
         else (case request col c1 path params apiKey of
                 (Inr requestResult, c2) \<Rightarrow>
                   (Resolved (data requestResult), setCacheObject c2 key (data requestResult))
               | (Inl requestFailure, c2) \<Rightarrow> (ResolvedError requestFailure, c2)))"

section \<open>The detail request\<close>

text \<open>
  What a caller passes as \<^verbatim>\<open>ids\<close>: an array of ids or one value that is not an array. The
  ids of an array are integers, the only elements on which the comparator \<^verbatim>\<open>a - b\<close> of the
  sort is an order.
\<close>

datatype ids_arg =
    IdArray "int list"
  | IdUndefined
  | IdNull
  | IdBool bool
  | IdNum int
  | IdStr string

text \<open>
  \<^verbatim>\<open>if (ids instanceof Array) { ids = ids.sort((a, b) => a - b); }\<close>: the value of
  \<^verbatim>\<open>ids\<close> after the statement. The sort is in place, so the caller's own array is in
  ascending order afterwards as well.
\<close>

fun sorted_ids :: "ids_arg \<Rightarrow> jsval" where
  "sorted_ids (IdArray ns) = Arr (map Num (sort ns))"
| "sorted_ids IdUndefined = Undefined"
| "sorted_ids IdNull = Null"
| "sorted_ids (IdBool b) = Bool b"
| "sorted_ids (IdNum n) = Num n"
| "sorted_ids (IdStr s) = Str s"

text \<open>
  \<^verbatim>\<open>ids.length\<close>: it throws on \<^verbatim>\<open>undefined\<close> and \<^verbatim>\<open>null\<close>, is a number on arrays and
  strings and \<^verbatim>\<open>undefined\<close> on numbers and booleans (an object is never passed as
  \<^verbatim>\<open>ids\<close>, see \<open>ids_arg\<close>). A comparison with an \<^verbatim>\<open>undefined\<close> length is false.
\<close>

fun js_length :: "jsval \<Rightarrow> error + nat option" where
  "js_length Undefined = Inl TypeError"
| "js_length Null = Inl TypeError"
| "js_length (Arr xs) = Inr (Some (length xs))"
| "js_length (Str s) = Inr (Some (length s))"
| "js_length v = Inr None"

text \<open>\<^verbatim>\<open>ids[0]\<close>, ..., \<^verbatim>\<open>ids[ids.length - 1]\<close>; indexing a string gives its characters.\<close>

fun js_elems :: "jsval \<Rightarrow> jsval list" where
  "js_elems (Arr xs) = xs"
| "js_elems (Str s) = map (\<lambda>ch. Str [ch]) s"
| "js_elems v = []"

text \<open>
  The loop over \<^verbatim>\<open>cachedResult\<close>: \<open>cs\<close> is what is left of \<^verbatim>\<open>cachedResult\<close> from position
  \<open>i\<close> on, and reading past its end gives \<^verbatim>\<open>undefined\<close>.
\<close>

fun split_cached :: "jsval list \<Rightarrow> jsval list \<Rightarrow> jsval list \<Rightarrow> (string \<times> jsval) list
    \<Rightarrow> jsval list \<times> (string \<times> jsval) list" where
  "split_cached [] cs idsNotInCache objectLookup = (idsNotInCache, objectLookup)"
| "split_cached (x # xs) cs idsNotInCache objectLookup =
     (let cached = (case cs of [] \<Rightarrow> Undefined | v # _ \<Rightarrow> v)
      in if cached = Undefined
         then split_cached xs (tl cs) (idsNotInCache @ [x]) objectLookup
         else split_cached xs (tl cs) idsNotInCache (set_prop objectLookup (to_string x) cached))"

text \<open>\<^verbatim>\<open>objectLookup[requestResult.data[i].id] = requestResult.data[i]\<close>, for each \<open>i\<close>.\<close>

definition add_fetched :: "(string \<times> jsval) list \<Rightarrow> jsval list \<Rightarrow> (string \<times> jsval) list" where
  "add_fetched objectLookup xs = foldl (\<lambda>lk x. set_prop lk (to_string (id_of x)) x) objectLookup xs"

text \<open>
  Everything from \<^verbatim>\<open>if (ids.length <= 0)\<close> to the end of the callback: \<open>ids\<close> is the value of
  the variable at that point (the ids not in the cache, or the caller's value).
\<close>

definition fetch_missing :: "collaborators \<Rightarrow> client \<Rightarrow> string \<Rightarrow> string \<Rightarrow> string option
    \<Rightarrow> jsval \<Rightarrow> (string \<times> jsval) list \<Rightarrow> jsval \<Rightarrow> outcome \<times> client" where
  "fetch_missing col c path key apiKey ids objectLookup cachedResult =
     (case js_length ids of
        Inl e \<Rightarrow> (Rejected e, c)
      | Inr len \<Rightarrow>
          if (case len of Some n \<Rightarrow> n \<le> 0 | None \<Rightarrow> False) then (Resolved cachedResult, c)
          else (case request col c path (idListToParams ids) apiKey of
                  (Inr requestResult, c2) \<Rightarrow>
                    (case setCacheObjects c2 key (data requestResult) of
                       (Inl e, c3) \<Rightarrow> (Rejected e, c3)
                     | (Inr d, c3) \<Rightarrow>
                         (case d of
                            Arr xs \<Rightarrow> (Resolved (Arr (object_values (add_fetched objectLookup xs))), c3)
                          | _ \<Rightarrow> (Resolved d, c3)))
                | (Inl requestFailure, c2) \<Rightarrow>
                    (if 0 < length (own_props objectLookup)
                     then Resolved (Arr (object_values objectLookup))
                     else ResolvedError requestFailure, c2)))"

definition apiDetailsRequest :: "collaborators \<Rightarrow> client \<Rightarrow> string \<Rightarrow> ids_arg \<Rightarrow> params_arg
    \<Rightarrow> string option \<Rightarrow> outcome \<times> client" where
  "apiDetailsRequest col c path ids0 params0 apiKey0 =
     (let (params1, apiKey) = shift_params params0 apiKey0;
          params = with_lang c params1;
          key = cacheKey path apiKey params;
          ids = sorted_ids ids0;
          (cachedResult, c1) = findInCache c key ids
      in case cachedResult of
           Arr cs \<Rightarrow>
             (case js_length ids of
                Inl e \<Rightarrow> (Rejected e, c1)
              | Inr len \<Rightarrow>
                  (let (idsNotInCache, objectLookup) = split_cached (js_elems ids) cs [] []
                   in fetch_missing col c1 path key apiKey (Arr idsNotInCache) objectLookup cachedResult))
         | _ \<Rightarrow>
             if truthy cachedResult then (Resolved cachedResult, c1)
             else fetch_missing col c1 path key apiKey ids [] cachedResult)"

section \<open>Notions used in the statements\<close>

text \<open>What a lookup of \<open>key\<close> gives in the state \<open>c\<close>.\<close>

definition cached :: "client \<Rightarrow> string \<Rightarrow> jsval" where
  "cached c key = (case entries c key of Some v \<Rightarrow> v | None \<Rightarrow> Undefined)"

text \<open>The \<^verbatim>\<open>options\<close> object that \<open>request\<close> hands to the transport.\<close>

definition request_options :: "string \<Rightarrow> (string \<times> jsval) list \<Rightarrow> string option \<Rightarrow> request" where
  "request_options path parameters apiKey =
     \<lparr> url = buildURL path, qs = parameters,
       headers = (if has_key apiKey then [(''Authorization'', ''Bearer '' @ the apiKey)] else []) \<rparr>"

text \<open>
  The parameter object and the API key that a call works with, once an API key in the
  place of the parameters has been moved and the language has been filled in; the cache
  key and the transport request of a collection fetch.
\<close>

definition effective_params :: "client \<Rightarrow> params_arg \<Rightarrow> string option \<Rightarrow> (string \<times> jsval) list" where
  "effective_params c params apiKey = with_lang c (fst (shift_params params apiKey))"

definition effective_key :: "params_arg \<Rightarrow> string option \<Rightarrow> string option" where
  "effective_key params apiKey = snd (shift_params params apiKey)"

definition collection_key :: "client \<Rightarrow> string \<Rightarrow> params_arg \<Rightarrow> string option \<Rightarrow> string" where
  "collection_key c path params apiKey =
     cacheKey path (effective_key params apiKey) (effective_params c params apiKey)"

definition collection_request :: "client \<Rightarrow> string \<Rightarrow> params_arg \<Rightarrow> string option \<Rightarrow> request" where
  "collection_request c path params apiKey =
     request_options path (effective_params c params apiKey) (effective_key params apiKey)"

text \<open>
  For a detail fetch of the integer ids \<open>ns\<close>: the cache key of one id, what the cache holds
  for it, the ids (in the order of the internal sort) that the cache does not hold and
  those it holds, the transport request for ids \<open>ms\<close>, and the cache lookups the fetch
  starts with. \<open>index_range\<close> says that every id is an array index, that is, at least 0 and
  below \<open>2^32 - 1\<close>.
\<close>

definition detail_key :: "client \<Rightarrow> string \<Rightarrow> params_arg \<Rightarrow> string option \<Rightarrow> int \<Rightarrow> string" where
  "detail_key c path params apiKey n = collection_key c path params apiKey @ ''#'' @ show_int n"














subsection \<open>Notions for the cache key\<close>

text \<open>
  A parameter object is plain when its property names are distinct and none is an array
  index, and its values are primitive (not arrays, not objects): the parameter objects the
  public methods build are such. The numbers of the model are the integers, so a plain
  parameter object holds no fractional number, no \<^verbatim>\<open>NaN\<close> and no infinity; \<^verbatim>\<open>JSON.stringify\<close>
  writes the last two as \<^verbatim>\<open>null\<close>, and nothing below is about them. Its defined properties are those \<^verbatim>\<open>JSON.stringify\<close> writes,
  each as \<open>json_entry\<close> writes it. \<open>key_of\<close> identifies an empty API key with an absent one,
  as \<^verbatim>\<open>if (apiKey)\<close> does.
\<close>

fun primitive :: "jsval \<Rightarrow> bool" where
  "primitive (Arr xs) = False"
| "primitive (Obj ps) = False"
| "primitive v = True"

definition plain_params :: "(string \<times> jsval) list \<Rightarrow> bool" where
  "plain_params ps =
     (distinct (map fst ps) \<and> (\<forall>(k, v)\<in>set ps. array_index k = None \<and> primitive v))"

definition defined_params :: "(string \<times> jsval) list \<Rightarrow> (string \<times> jsval) list" where
  "defined_params ps = filter (\<lambda>(k, v). v \<noteq> Undefined) ps"

definition json_entry :: "string \<times> jsval \<Rightarrow> string" where
  "json_entry e = json_quote (fst e) @ '':'' @ stringify (snd e)"

definition entries_ok :: "(string \<times> jsval) list \<Rightarrow> bool" where
  "entries_ok es = (\<forall>e\<in>set es. primitive (snd e) \<and> snd e \<noteq> Undefined)"

definition key_of :: "string option \<Rightarrow> string option" where
  "key_of apiKey = (if has_key apiKey then apiKey else None)"

text \<open>
  What the statement about the cache key speaks of, written out on the arguments of a call
  and the client's configuration. The API key of a request is the third argument when the
  second is a parameter object, the second argument when that is a string, and none when
  the second argument is absent (a third argument is then dropped); an empty string counts
  as none. The properties of a request are the properties of the parameter object that
  have a value, where \<^verbatim>\<open>lang\<close> is the client's default language unless the object has a
  truthy \<^verbatim>\<open>lang\<close> of its own: in the place of the object's \<^verbatim>\<open>lang\<close> when it has one, and
  last otherwise. A request is plain when its parameter object, if it has one, is plain.
\<close>

definition plain_request :: "params_arg \<Rightarrow> bool" where
  "plain_request params = (case params of ParamsObject ps \<Rightarrow> plain_params ps | _ \<Rightarrow> True)"

definition request_api_key :: "params_arg \<Rightarrow> string option \<Rightarrow> string option" where
  "request_api_key params apiKey =
     (case params of
        ParamsObject ps \<Rightarrow> (case apiKey of Some a \<Rightarrow> if a = [] then None else Some a | None \<Rightarrow> None)
      | ParamsKey a \<Rightarrow> if a = [] then None else Some a
      | ParamsAbsent \<Rightarrow> None)"

definition request_properties :: "client \<Rightarrow> params_arg \<Rightarrow> (string \<times> jsval) list" where
  "request_properties c params =
     (let l = Str (defaultLang (config c));
          ps = (case params of ParamsObject ps \<Rightarrow> ps | _ \<Rightarrow> [])
      in if ''lang'' \<in> fst ` set ps
         then filter (\<lambda>(n, v). v \<noteq> Undefined)
                (map (\<lambda>(n, v). if n = ''lang'' \<and> \<not> truthy v then (n, l) else (n, v)) ps)
         else filter (\<lambda>(n, v). v \<noteq> Undefined) ps @ [(''lang'', l)])"

text \<open>
  Three devices of the proofs: a reader of one escaped character, the inverse of
  \<open>json_escape\<close>; a scanner that follows a text in and out of string literals and stops at
  a backslash or a \<^verbatim>\<open>#\<close> outside of them and at an unknown escape; and what may follow a
  value in an object, a comma or the closing brace.
\<close>

definition hex_value :: "char \<Rightarrow> nat" where
  "hex_value c = (let n = (of_char c :: nat) in if n < 58 then n - 48 else n - 87)"

fun unescape :: "string \<Rightarrow> (char \<times> string) option" where
  "unescape [] = None"
| "unescape (x # t) =
     (if x = CHR 0x22 then None
      else if x \<noteq> CHR 0x5C then Some (x, t)
      else (case t of
              [] \<Rightarrow> None
            | y # t' \<Rightarrow>
                if y = CHR 0x22 then Some (CHR 0x22, t')
                else if y = CHR 0x5C then Some (CHR 0x5C, t')
                else if y = CHR ''b'' then Some (char_of (8::nat), t')
                else if y = CHR ''t'' then Some (char_of (9::nat), t')
                else if y = CHR ''n'' then Some (char_of (10::nat), t')
                else if y = CHR ''f'' then Some (char_of (12::nat), t')
                else if y = CHR ''r'' then Some (char_of (13::nat), t')
                else (case t' of
                        a # b # h1 # h2 # t'' \<Rightarrow> Some (char_of (16 * hex_value h1 + hex_value h2), t'')
                      | _ \<Rightarrow> None)))"

datatype scan_state = Outside | Inside | Escaped

fun scan_step :: "scan_state \<Rightarrow> char \<Rightarrow> scan_state option" where
  "scan_step Outside ch =
     (if ch = CHR 0x22 then Some Inside
      else if ch = CHR 0x5C \<or> ch = CHR ''#'' then None
      else Some Outside)"
| "scan_step Inside ch =
     (if ch = CHR 0x22 then Some Outside
      else if ch = CHR 0x5C then Some Escaped
      else Some Inside)"
| "scan_step Escaped ch =
     (if ch = CHR 0x22 \<or> ch = CHR 0x5C \<or> ch \<in> set ''bfnrtu'' then Some Inside else None)"

fun scan :: "scan_state \<Rightarrow> string \<Rightarrow> scan_state option" where
  "scan s [] = Some s"
| "scan s (ch # cs) = (case scan_step s ch of None \<Rightarrow> None | Some s' \<Rightarrow> scan s' cs)"

definition closes :: "string \<Rightarrow> bool" where
  "closes r = (\<exists>t. r = CHR '','' # t \<or> r = CHR ''}'' # t)"

subsection \<open>Concrete clients and upstreams\<close>

text \<open>
  A client built with no option set, an upstream that answers every request with one
  status and body and decodes the bodies of a table, the smallest detail object, a
  client with one more cache entry, a response with status 200 and the cache key of an
  item for the client built with no option set.
\<close>

definition client0 :: client where
  "client0 = constructor \<lparr> defaultLang = [], cacheTimeout = 0, maxCacheObjects = 0 \<rparr>"

text \<open>A client built with the default language \<open>l\<close> and no other option set.\<close>

definition client_lang :: "string \<Rightarrow> client" where
  "client_lang l = constructor \<lparr> defaultLang = l, cacheTimeout = 0, maxCacheObjects = 0 \<rparr>"

definition respond :: "nat \<Rightarrow> string \<Rightarrow> request \<Rightarrow> error + response" where
  "respond status b r = Inr \<lparr> statusCode = status, response_headers = [], body = b \<rparr>"

definition upstream :: "nat \<Rightarrow> string \<Rightarrow> (string \<times> jsval) list \<Rightarrow> collaborators" where
  "upstream status b table = \<lparr> transport = respond status b, jsonDecode = map_of table \<rparr>"

definition item :: "int \<Rightarrow> jsval" where
  "item n = Obj [(''id'', Num n)]"

definition with_entry :: "client \<Rightarrow> string \<Rightarrow> jsval \<Rightarrow> client" where
  "with_entry c key v = c\<lparr>entries := (entries c)(key \<mapsto> v)\<rparr>"


definition items_key :: "int \<Rightarrow> string" where
  "items_key n = detail_key client0 ''items'' ParamsAbsent None n"

section \<open>Properties of the request layer and of the collection request\<close>

lemma cache_get_eq: "cache_get c key = (cached c key, c\<lparr>trace := trace c @ [CacheGet key]\<rparr>)"
  by (simp add: cache_get_def cached_def)

lemma findInCache_absent:
  "findInCache c key Undefined = (cached c key, c\<lparr>trace := trace c @ [CacheGet key]\<rparr>)"
  by (simp add: findInCache_def findInCacheSimple_def cache_get_eq)

lemma request_fail_transport:
  "transport col (request_options path ps k) = Inl e \<Longrightarrow>
   request col c path ps k =
     (Inl e, c\<lparr>trace := trace c @ [TransportGet (request_options path ps k)]\<rparr>)"
  by (simp add: request_def request_options_def Let_def)

lemma request_fail_status:
  "transport col (request_options path ps k) = Inr r \<Longrightarrow>
   statusCode r \<noteq> 200 \<Longrightarrow> statusCode r \<noteq> 206 \<Longrightarrow>
   request col c path ps k =
     (Inl (HttpError (statusCode r) (body r)),
      c\<lparr>trace := trace c @ [TransportGet (request_options path ps k)]\<rparr>)"
  by (simp add: request_def request_options_def Let_def)

lemma request_fail_parse:
  "transport col (request_options path ps k) = Inr r \<Longrightarrow>
   statusCode r = 200 \<or> statusCode r = 206 \<Longrightarrow>
   jsonDecode col (body r) = None \<Longrightarrow>
   request col c path ps k =
     (Inl (ParseError (body r)),
      c\<lparr>trace := trace c @ [TransportGet (request_options path ps k)]\<rparr>)"
  by (auto simp add: request_def request_options_def Let_def jsonParse_def)

lemma request_ok:
  "transport col (request_options path ps k) = Inr r \<Longrightarrow>
   statusCode r = 200 \<or> statusCode r = 206 \<Longrightarrow>
   jsonDecode col (body r) = Some v \<Longrightarrow>
   \<exists>m. request col c path ps k =
     (Inr \<lparr> meta = m, data = v \<rparr>,
      c\<lparr>trace := trace c @ [TransportGet (request_options path ps k)]\<rparr>)"
  by (auto simp add: request_def request_options_def Let_def jsonParse_def)

lemma apiRequest_unfold:
  "apiRequest col c path p k =
     (if truthy (cached c (collection_key c path p k))
      then (Resolved (cached c (collection_key c path p k)),
            c\<lparr>trace := trace c @ [CacheGet (collection_key c path p k)]\<rparr>)
      else (case request col (c\<lparr>trace := trace c @ [CacheGet (collection_key c path p k)]\<rparr>) path
                   (effective_params c p k) (effective_key p k) of
              (Inr requestResult, c2) \<Rightarrow>
                 (Resolved (data requestResult),
                  setCacheObject c2 (collection_key c path p k) (data requestResult))
            | (Inl requestFailure, c2) \<Rightarrow> (ResolvedError requestFailure, c2)))"
  by (auto simp add: apiRequest_def collection_key_def effective_params_def effective_key_def
      findInCache_absent Let_def split: prod.splits sum.splits)

lemma apiRequest_hit:
  "truthy (cached c (collection_key c path p k)) \<Longrightarrow>
   apiRequest col c path p k =
     (Resolved (cached c (collection_key c path p k)),
      c\<lparr>trace := trace c @ [CacheGet (collection_key c path p k)]\<rparr>)"
  by (simp add: apiRequest_unfold)

lemma apiRequest_fetch:
  assumes "\<not> truthy (cached c (collection_key c path p k))"
    and "transport col (collection_request c path p k) = Inr r"
    and "statusCode r = 200 \<or> statusCode r = 206"
    and "jsonDecode col (body r) = Some v"
  shows "apiRequest col c path p k =
           (Resolved v,
            c\<lparr>entries := (entries c)(collection_key c path p k \<mapsto> v),
              trace := trace c @ [CacheGet (collection_key c path p k),
                                  TransportGet (collection_request c path p k),
                                  CacheSet (collection_key c path p k) v (store_ttl c)]\<rparr>)"
proof -
  from request_ok [OF assms(2) [unfolded collection_request_def] assms(3) assms(4),
      where c = "c\<lparr>trace := trace c @ [CacheGet (collection_key c path p k)]\<rparr>"]
  obtain m where "request col (c\<lparr>trace := trace c @ [CacheGet (collection_key c path p k)]\<rparr>) path
                    (effective_params c p k) (effective_key p k) =
      (Inr \<lparr> meta = m, data = v \<rparr>,
       c\<lparr>trace := trace c @ [CacheGet (collection_key c path p k),
                              TransportGet (collection_request c path p k)]\<rparr>)"
    by (auto simp add: collection_request_def)
  then show ?thesis
    using assms(1) by (simp add: apiRequest_unfold setCacheObject_def cache_set_def)
qed

lemma config_after_apiRequest: "config (snd (apiRequest col c path p k)) = config c"
  by (auto simp add: apiRequest_unfold request_def Let_def setCacheObject_def cache_set_def
      split: sum.splits prod.splits)

lemma collection_key_config:
  "config c' = config c \<Longrightarrow> collection_key c' path p k = collection_key c path p k"
  by (simp add: collection_key_def effective_params_def with_lang_def)

text \<open>
  C4 (as amended). A collection fetch that misses the cache and to which the transport
  answers with a status other than 200 and 206 makes one cache lookup and one transport
  call and writes nothing to the cache. Its promise does not reject: the rejection handler
  of \<open>apiRequest\<close> returns the failure, so the promise resolves with the \<^verbatim>\<open>Error\<close> object,
  which carries the status code and the raw body, as its value.
\<close>

theorem apiRequest_error_status:
  assumes "\<not> truthy (cached c (collection_key c path p k))"
    and "transport col (collection_request c path p k) = Inr r"
    and "statusCode r \<noteq> 200" and "statusCode r \<noteq> 206"
  shows "apiRequest col c path p k =
           (ResolvedError (HttpError (statusCode r) (body r)),
            c\<lparr>trace := trace c @ [CacheGet (collection_key c path p k),
                                   TransportGet (collection_request c path p k)]\<rparr>)"
  using assms
  by (simp add: apiRequest_unfold collection_request_def request_fail_status)

text \<open>The amended C4 at a fresh client and an upstream that answers 404.\<close>

theorem apiRequest_error_status_witness:
  "\<not> truthy (cached client0 (collection_key client0 ''items'' ParamsAbsent None))
   \<and> transport (upstream 404 ''gone'' []) (collection_request client0 ''items'' ParamsAbsent None)
        = Inr \<lparr> statusCode = 404, response_headers = [], body = ''gone'' \<rparr>
   \<and> apiRequest (upstream 404 ''gone'' []) client0 ''items'' ParamsAbsent None =
        (ResolvedError (HttpError 404 ''gone''),
         client0\<lparr>trace := trace client0 @ [CacheGet (collection_key client0 ''items'' ParamsAbsent None),
            TransportGet (collection_request client0 ''items'' ParamsAbsent None)]\<rparr>)"
proof -
  have miss: "\<not> truthy (cached client0 (collection_key client0 ''items'' ParamsAbsent None))"
    by (simp add: cached_def client0_def constructor_def)
  have resp: "transport (upstream 404 ''gone'' []) (collection_request client0 ''items'' ParamsAbsent None)
        = Inr \<lparr> statusCode = 404, response_headers = [], body = ''gone'' \<rparr>"
    by (simp add: upstream_def respond_def)
  show ?thesis
    using apiRequest_error_status [OF miss resp] miss resp by simp
qed

text \<open>
  C4 as stated fails: with a fresh client and an upstream that answers 404, the caller of
  \<open>apiRequest\<close> gets a resolved promise, not a rejected one.
\<close>

theorem apiRequest_error_is_resolved:
  "fst (apiRequest (upstream 404 ''gone'' []) client0 ''items'' ParamsAbsent None)
     = ResolvedError (HttpError 404 ''gone'')
   \<and> fst (apiRequest (upstream 404 ''gone'' []) client0 ''items'' ParamsAbsent None)
     \<noteq> Rejected (HttpError 404 ''gone'')"
  by code_simp

text \<open>
  C5. A collection fetch that misses the cache and to which the transport answers with
  status 206 and a body that decodes is a success, exactly as with status 200: the decoded
  value is stored under the cache key with the configured time to live and is the value
  the promise resolves with; and the same response with status 200 in place of 206 gives
  the same outcome and the same state.
\<close>

theorem apiRequest_partial_content:
  assumes "\<not> truthy (cached c (collection_key c path p k))"
    and "transport col (collection_request c path p k) = Inr r"
    and "statusCode r = 206"
    and "jsonDecode col (body r) = Some v"
    and "store_ttl c = cacheTimeout (config c)"
  shows "apiRequest col c path p k =
           (Resolved v,
            c\<lparr>entries := (entries c)(collection_key c path p k \<mapsto> v),
              trace := trace c @ [CacheGet (collection_key c path p k),
                                  TransportGet (collection_request c path p k),
                                  CacheSet (collection_key c path p k) v (cacheTimeout (config c))]\<rparr>)
       \<and> apiRequest (col\<lparr>transport := (transport col)
                          (collection_request c path p k := Inr (r\<lparr>statusCode := 200\<rparr>))\<rparr>) c path p k
           = apiRequest col c path p k"
proof -
  let ?col = "col\<lparr>transport := (transport col)
                  (collection_request c path p k := Inr (r\<lparr>statusCode := 200\<rparr>))\<rparr>"
  have a: "apiRequest col c path p k =
           (Resolved v,
            c\<lparr>entries := (entries c)(collection_key c path p k \<mapsto> v),
              trace := trace c @ [CacheGet (collection_key c path p k),
                                  TransportGet (collection_request c path p k),
                                  CacheSet (collection_key c path p k) v (store_ttl c)]\<rparr>)"
    using apiRequest_fetch [OF assms(1) assms(2) _ assms(4)] assms(3) by simp
  have t: "transport ?col (collection_request c path p k) = Inr (r\<lparr>statusCode := 200\<rparr>)"
    by simp
  have d: "jsonDecode ?col (body (r\<lparr>statusCode := 200\<rparr>)) = Some v"
    using assms(4) by simp
  have b: "apiRequest ?col c path p k =
           (Resolved v,
            c\<lparr>entries := (entries c)(collection_key c path p k \<mapsto> v),
              trace := trace c @ [CacheGet (collection_key c path p k),
                                  TransportGet (collection_request c path p k),
                                  CacheSet (collection_key c path p k) v (store_ttl c)]\<rparr>)"
    using apiRequest_fetch [OF assms(1) t _ d] by simp
  show ?thesis using a b assms(5) by simp
qed

text \<open>C5 at a fresh client and an upstream that answers 206 with an empty array.\<close>

theorem apiRequest_partial_content_witness:
  "\<not> truthy (cached client0 (collection_key client0 ''items'' ParamsAbsent None))
   \<and> transport (upstream 206 ''[]'' [(''[]'', Arr [])]) (collection_request client0 ''items'' ParamsAbsent None)
        = Inr \<lparr> statusCode = 206, response_headers = [], body = ''[]'' \<rparr>
   \<and> jsonDecode (upstream 206 ''[]'' [(''[]'', Arr [])]) ''[]'' = Some (Arr [])
   \<and> store_ttl client0 = cacheTimeout (config client0)
   \<and> fst (apiRequest (upstream 206 ''[]'' [(''[]'', Arr [])]) client0 ''items'' ParamsAbsent None)
        = Resolved (Arr [])"
proof -
  have miss: "\<not> truthy (cached client0 (collection_key client0 ''items'' ParamsAbsent None))"
    by (simp add: cached_def client0_def constructor_def)
  have resp: "transport (upstream 206 ''[]'' [(''[]'', Arr [])]) (collection_request client0 ''items'' ParamsAbsent None)
        = Inr \<lparr> statusCode = 206, response_headers = [], body = ''[]'' \<rparr>"
    by (simp add: upstream_def respond_def)
  have dec: "jsonDecode (upstream 206 ''[]'' [(''[]'', Arr [])])
       (body \<lparr> statusCode = 206, response_headers = [], body = ''[]'' \<rparr>) = Some (Arr [])"
    by (simp add: upstream_def)
  have ttl: "store_ttl client0 = cacheTimeout (config client0)"
    by (simp add: client0_def constructor_def)
  show ?thesis
    using apiRequest_partial_content [OF miss resp _ dec ttl] miss resp dec ttl by simp
qed

text \<open>
  C6 (as amended). A collection fetch whose cache key holds a truthy value (every JSON
  object and every JSON array is one; \<^verbatim>\<open>null\<close>, \<^verbatim>\<open>false\<close>, \<open>0\<close> and the empty string are
  not, and the code treats them as a miss) resolves with the stored value after one cache
  lookup, with no transport call and no cache write. A fetch that misses and succeeds
  makes exactly one cache write; and when the value it fetched is truthy, the same call
  made again, whatever the upstream does then, resolves with the same value after one
  cache lookup and nothing else.
\<close>

theorem apiRequest_cache_hit:
  "(truthy (cached c (collection_key c path p k)) \<longrightarrow>
      apiRequest col c path p k =
        (Resolved (cached c (collection_key c path p k)),
         c\<lparr>trace := trace c @ [CacheGet (collection_key c path p k)]\<rparr>))
   \<and> (\<not> truthy (cached c (collection_key c path p k))
        \<and> transport col (collection_request c path p k) = Inr r
        \<and> (statusCode r = 200 \<or> statusCode r = 206)
        \<and> jsonDecode col (body r) = Some v \<longrightarrow>
      apiRequest col c path p k =
        (Resolved v,
         c\<lparr>entries := (entries c)(collection_key c path p k \<mapsto> v),
           trace := trace c @ [CacheGet (collection_key c path p k),
                               TransportGet (collection_request c path p k),
                               CacheSet (collection_key c path p k) v (store_ttl c)]\<rparr>)
      \<and> (truthy v \<longrightarrow>
           apiRequest col' (snd (apiRequest col c path p k)) path p k =
             (Resolved v,
              (snd (apiRequest col c path p k))
                \<lparr>trace := trace (snd (apiRequest col c path p k))
                             @ [CacheGet (collection_key c path p k)]\<rparr>)))"
proof (intro conjI impI)
  assume "truthy (cached c (collection_key c path p k))"
  then show "apiRequest col c path p k =
        (Resolved (cached c (collection_key c path p k)),
         c\<lparr>trace := trace c @ [CacheGet (collection_key c path p k)]\<rparr>)"
    by (rule apiRequest_hit)
next
  assume h: "\<not> truthy (cached c (collection_key c path p k))
        \<and> transport col (collection_request c path p k) = Inr r
        \<and> (statusCode r = 200 \<or> statusCode r = 206)
        \<and> jsonDecode col (body r) = Some v"
  then show first: "apiRequest col c path p k =
        (Resolved v,
         c\<lparr>entries := (entries c)(collection_key c path p k \<mapsto> v),
           trace := trace c @ [CacheGet (collection_key c path p k),
                               TransportGet (collection_request c path p k),
                               CacheSet (collection_key c path p k) v (store_ttl c)]\<rparr>)"
    using apiRequest_fetch [of c path p k col r v] by simp
  assume v: "truthy v"
  let ?c = "snd (apiRequest col c path p k)"
  have key: "collection_key ?c path p k = collection_key c path p k"
    by (rule collection_key_config) (rule config_after_apiRequest)
  have "cached ?c (collection_key c path p k) = v"
    by (simp add: first cached_def)
  with v key have "apiRequest col' ?c path p k =
      (Resolved v, ?c\<lparr>trace := trace ?c @ [CacheGet (collection_key c path p k)]\<rparr>)"
    using apiRequest_hit [of ?c path p k col'] by simp
  then show "apiRequest col' ?c path p k =
      (Resolved v, ?c\<lparr>trace := trace ?c @ [CacheGet (collection_key c path p k)]\<rparr>)" .
qed

text \<open>
  The amended C6 at a client whose cache holds an empty array under the key, and at a
  fresh client with an upstream that answers 200 with an empty array; the second call of
  each pair is made against an upstream that would answer 500.
\<close>

theorem apiRequest_cache_hit_witness:
  "truthy (cached (with_entry client0 (collection_key client0 ''items'' ParamsAbsent None) (Arr []))
            (collection_key (with_entry client0 (collection_key client0 ''items'' ParamsAbsent None) (Arr []))
               ''items'' ParamsAbsent None))
   \<and> fst (apiRequest (upstream 500 [] [])
             (with_entry client0 (collection_key client0 ''items'' ParamsAbsent None) (Arr []))
             ''items'' ParamsAbsent None) = Resolved (Arr [])
   \<and> \<not> truthy (cached client0 (collection_key client0 ''items'' ParamsAbsent None))
   \<and> transport (upstream 200 ''[]'' [(''[]'', Arr [])]) (collection_request client0 ''items'' ParamsAbsent None)
        = Inr \<lparr> statusCode = 200, response_headers = [], body = ''[]'' \<rparr>
   \<and> jsonDecode (upstream 200 ''[]'' [(''[]'', Arr [])]) ''[]'' = Some (Arr [])
   \<and> truthy (Arr [])
   \<and> fst (apiRequest (upstream 500 [] [])
             (snd (apiRequest (upstream 200 ''[]'' [(''[]'', Arr [])]) client0 ''items'' ParamsAbsent None))
             ''items'' ParamsAbsent None) = Resolved (Arr [])"
proof -
  let ?K = "collection_key client0 ''items'' ParamsAbsent None"
  let ?W = "with_entry client0 ?K (Arr [])"
  let ?U = "upstream 200 ''[]'' [(''[]'', Arr [])]"
  have same: "collection_key ?W ''items'' ParamsAbsent None = ?K"
    by (rule collection_key_config) (simp add: with_entry_def)
  have val: "cached ?W ?K = Arr []"
    by (simp add: cached_def with_entry_def)
  have hit: "truthy (cached ?W (collection_key ?W ''items'' ParamsAbsent None))"
    by (simp add: same val)
  have miss: "\<not> truthy (cached client0 ?K)"
    by (simp add: cached_def client0_def constructor_def)
  have resp: "transport ?U (collection_request client0 ''items'' ParamsAbsent None)
        = Inr \<lparr> statusCode = 200, response_headers = [], body = ''[]'' \<rparr>"
    by (simp add: upstream_def respond_def)
  have dec: "jsonDecode ?U ''[]'' = Some (Arr [])"
    by (simp add: upstream_def)
  have one: "fst (apiRequest (upstream 500 [] []) ?W ''items'' ParamsAbsent None) = Resolved (Arr [])"
    using apiRequest_cache_hit [of ?W "''items''" ParamsAbsent None "upstream 500 [] []"] hit
    by (simp add: same val)
  have tr: "truthy (Arr [])"
    by simp
  have "apiRequest (upstream 500 [] []) (snd (apiRequest ?U client0 ''items'' ParamsAbsent None))
             ''items'' ParamsAbsent None =
        (Resolved (Arr []),
         (snd (apiRequest ?U client0 ''items'' ParamsAbsent None))
           \<lparr>trace := trace (snd (apiRequest ?U client0 ''items'' ParamsAbsent None)) @ [CacheGet ?K]\<rparr>)"
    using apiRequest_cache_hit [of client0 "''items''" ParamsAbsent None ?U
        "\<lparr> statusCode = 200, response_headers = [], body = ''[]'' \<rparr>" "Arr []" "upstream 500 [] []"]
      miss resp dec tr
    by (simp only: response.simps) blast
  then have two: "fst (apiRequest (upstream 500 [] []) (snd (apiRequest ?U client0 ''items'' ParamsAbsent None))
             ''items'' ParamsAbsent None) = Resolved (Arr [])"
    by (simp only: fst_conv)
  show ?thesis using hit one miss resp dec two tr by blast
qed

text \<open>
  C6 as stated fails: the key is present in the cache, with the value \<open>0\<close>, and the fetch
  still calls the transport and writes to the cache.
\<close>

theorem apiRequest_falsy_entry_refetched:
  "entries (with_entry client0 (collection_key client0 ''items'' ParamsAbsent None) (Num 0))
      (collection_key client0 ''items'' ParamsAbsent None) = Some (Num 0)
   \<and> trace (snd (apiRequest (upstream 200 ''0'' [(''0'', Num 0)])
        (with_entry client0 (collection_key client0 ''items'' ParamsAbsent None) (Num 0))
        ''items'' ParamsAbsent None))
     = [CacheGet (collection_key client0 ''items'' ParamsAbsent None),
        TransportGet (collection_request client0 ''items'' ParamsAbsent None),
        CacheSet (collection_key client0 ''items'' ParamsAbsent None) (Num 0) 1800]"
  by code_simp

section \<open>Properties of the detail request\<close>

subsection \<open>Decimal strings and the order of object keys\<close>

lemma of_char_digit_char: "d < 10 \<Longrightarrow> (of_char (digit_char d) :: nat) = 48 + d"
  by (simp add: digit_char_def)

lemma of_char_digit_char_int: "d < 10 \<Longrightarrow> (of_char (digit_char d) :: int) = 48 + int d"
proof -
  assume "d < 10"
  then have "int (of_char (digit_char d)) = int (48 + d)"
    by (simp only: of_char_digit_char)
  then show ?thesis
    by (simp add: of_nat_of_char)
qed

lemma is_digit_digit_char: "d < 10 \<Longrightarrow> is_digit (digit_char d)"
  by (simp add: is_digit_def of_char_digit_char)

lemma show_nat_not_Nil: "show_nat n \<noteq> []"
  by (subst show_nat.simps) simp

lemma show_nat_digits: "list_all is_digit (show_nat n)"
proof (induction n rule: show_nat.induct)
  case (1 n)
  show ?case
    by (subst show_nat.simps) (use 1 in \<open>simp add: is_digit_digit_char\<close>)
qed

lemma parse_decimal_snoc:
  "parse_decimal (s @ [ch]) = 10 * parse_decimal s + (of_char ch - 48)"
  by (simp add: parse_decimal_def)

lemma parse_show_nat: "parse_decimal (show_nat n) = int n"
proof (induction n rule: show_nat.induct)
  case (1 n)
  show ?case
  proof (cases "n < 10")
    case True
    then show ?thesis
      by (subst show_nat.simps) (simp add: parse_decimal_def of_char_digit_char_int)
  next
    case False
    then have "parse_decimal (show_nat n) =
        10 * parse_decimal (show_nat (n div 10)) + int (n mod 10)"
      by (subst show_nat.simps) (simp add: parse_decimal_snoc of_char_digit_char_int)
    with False 1 show ?thesis by (simp add: zmod_int zdiv_int)
  qed
qed




lemma show_nat_inj: "show_nat m = show_nat n \<Longrightarrow> m = n"
  by (metis parse_show_nat of_nat_eq_iff)



lemma map_of_set_prop: "map_of (set_prop ps k v) = (map_of ps)(k \<mapsto> v)"
  by (induction ps) auto

lemma keys_set_prop: "fst ` set (set_prop ps k v) = insert k (fst ` set ps)"
  by (simp add: dom_map_of_conv_image_fst [symmetric] map_of_set_prop)

lemma distinct_set_prop: "distinct (map fst ps) \<Longrightarrow> distinct (map fst (set_prop ps k v))"
proof (induction ps)
  case Nil
  show ?case by simp
next
  case (Cons a ps)
  obtain k' v' where a: "a = (k', v')" by (cases a)
  from Cons show ?case
    using keys_set_prop [of ps k v] by (auto simp add: a image_iff)
qed














lemma cached_trace [simp]: "cached (c\<lparr>trace := t\<rparr>) key = cached c key"
  by (simp add: cached_def)



































subsection \<open>The claims\<close>

text \<open>
  C10. A detail fetch with an empty array of ids resolves with an empty array and leaves
  the client as it was: no cache lookup, no transport call and no cache write.
\<close>

theorem apiDetailsRequest_no_ids:
  "apiDetailsRequest col c path (IdArray []) p k = (Resolved (Arr []), c)"
  by (simp add: apiDetailsRequest_def findInCache_def fetch_missing_def split_beta)




text \<open>
  C2 does not hold of the code, and the code is at odds with itself. Asked for the id 15
  twice with a cold cache, the fetch returns a sequence of one element, also when the
  upstream sends the object twice: the result is read from \<^verbatim>\<open>objectLookup\<close>, an object keyed
  by id. Asked for the same ids when the object of 15 is cached, it returns
  \<^verbatim>\<open>cachedResult\<close>, the object once per occurrence, as C2 says.
\<close>

theorem apiDetailsRequest_duplicates_collapse:
  "fst (apiDetailsRequest (upstream 200 ''B'' [(''B'', Arr [item 15, item 15])]) client0
          ''items'' (IdArray [15, 15]) ParamsAbsent None)
     = Resolved (Arr [item 15])
   \<and> fst (apiDetailsRequest (upstream 200 ''B'' [(''B'', Arr [item 15])]) client0
          ''items'' (IdArray [15, 15]) ParamsAbsent None)
     = Resolved (Arr [item 15])
   \<and> fst (apiDetailsRequest (upstream 200 ''B'' [(''B'', Arr [item 15])])
          (with_entry client0 (items_key 15) (item 15))
          ''items'' (IdArray [15, 15]) ParamsAbsent None)
     = Resolved (Arr [item 15, item 15])"
  by code_simp













section \<open>Properties of the cache key\<close>

lemma char_eqI: "(of_char c :: nat) = of_char d \<Longrightarrow> c = d"
  by (simp only: of_char_eq_iff)

lemma of_char_hex_char:
  "d < 16 \<Longrightarrow> (of_char (hex_char d) :: nat) = (if d < 10 then 48 + d else 87 + d)"
  by (simp add: hex_char_def)

lemma hex_value_hex_char: "d < 16 \<Longrightarrow> hex_value (hex_char d) = d"
  by (simp add: hex_value_def of_char_hex_char Let_def)

lemma hex_char_plain: "d < 16 \<Longrightarrow> hex_char d \<noteq> CHR 0x22 \<and> hex_char d \<noteq> CHR 0x5C"
proof -
  assume d: "d < 16"
  have "(of_char (hex_char d) :: nat) \<noteq> of_char (CHR 0x22)"
    and "(of_char (hex_char d) :: nat) \<noteq> of_char (CHR 0x5C)"
    using d by (simp_all add: of_char_hex_char)
  then show ?thesis by auto
qed

lemma json_escape_cases:
  obtains (quote) "c = CHR 0x22" "json_escape c = [CHR 0x5C, CHR 0x22]"
  | (backslash) "c = CHR 0x5C" "json_escape c = [CHR 0x5C, CHR 0x5C]"
  | (b) "c = char_of (8::nat)" "json_escape c = CHR 0x5C # ''b''"
  | (t) "c = char_of (9::nat)" "json_escape c = CHR 0x5C # ''t''"
  | (n) "c = char_of (10::nat)" "json_escape c = CHR 0x5C # ''n''"
  | (f) "c = char_of (12::nat)" "json_escape c = CHR 0x5C # ''f''"
  | (r) "c = char_of (13::nat)" "json_escape c = CHR 0x5C # ''r''"
  | (u) "(of_char c :: nat) < 32"
      "json_escape c = CHR 0x5C # ''u00'' @ [hex_char (of_char c div 16), hex_char (of_char c mod 16)]"
  | (plain) "c \<noteq> CHR 0x22" "c \<noteq> CHR 0x5C" "json_escape c = [c]"
proof -
  let ?n = "of_char c :: nat"
  consider "?n = 34" | "?n = 92" | "?n = 8" | "?n = 9" | "?n = 10" | "?n = 12" | "?n = 13"
    | "?n < 32" "?n \<noteq> 8" "?n \<noteq> 9" "?n \<noteq> 10" "?n \<noteq> 12" "?n \<noteq> 13"
    | "32 \<le> ?n" "?n \<noteq> 34" "?n \<noteq> 92"
    by linarith
  then show ?thesis
  proof cases
    case 1
    then have "c = CHR 0x22" by (intro char_eqI) simp
    with 1 show ?thesis by (intro quote) (simp_all add: json_escape_def)
  next
    case 2
    then have "c = CHR 0x5C" by (intro char_eqI) simp
    with 2 show ?thesis by (intro backslash) (simp_all add: json_escape_def)
  next
    case 3
    then have "c = char_of (8::nat)" by (intro char_eqI) simp
    with 3 show ?thesis by (intro b) (simp_all add: json_escape_def)
  next
    case 4
    then have "c = char_of (9::nat)" by (intro char_eqI) simp
    with 4 show ?thesis by (intro t) (simp_all add: json_escape_def)
  next
    case 5
    then have "c = char_of (10::nat)" by (intro char_eqI) simp
    with 5 show ?thesis by (intro n) (simp_all add: json_escape_def)
  next
    case 6
    then have "c = char_of (12::nat)" by (intro char_eqI) simp
    with 6 show ?thesis by (intro f) (simp_all add: json_escape_def)
  next
    case 7
    then have "c = char_of (13::nat)" by (intro char_eqI) simp
    with 7 show ?thesis by (intro r) (simp_all add: json_escape_def)
  next
    case 8
    then show ?thesis by (intro u) (simp_all add: json_escape_def Let_def)
  next
    case 9
    then have "(of_char c :: nat) \<noteq> of_char (CHR 0x22)" "(of_char c :: nat) \<noteq> of_char (CHR 0x5C)"
      by simp_all
    then have "c \<noteq> CHR 0x22" "c \<noteq> CHR 0x5C" by auto
    with 9 show ?thesis by (intro plain) (simp_all add: json_escape_def Let_def)
  qed
qed

lemma unescape_json_escape: "unescape (json_escape c @ t) = Some (c, t)"
proof (cases c rule: json_escape_cases)
  case u
  have "char_of (16 * hex_value (hex_char (of_char c div 16))
          + hex_value (hex_char (of_char c mod 16))) = c"
    using u(1) by (intro char_eqI) (simp add: hex_value_hex_char)
  with u show ?thesis by simp
qed simp_all

lemma scan_json_escape: "scan Inside (json_escape c @ t) = scan Inside t"
proof (cases c rule: json_escape_cases)
  case u
  then have "of_char c div 16 < (16::nat)" "of_char c mod 16 < (16::nat)" by simp_all
  then show ?thesis
    using hex_char_plain [of "of_char c div 16"] hex_char_plain [of "of_char c mod 16"]
    by (simp add: u)
qed simp_all

lemma scan_escaped: "scan Inside (concat (map json_escape s) @ t) = scan Inside t"
  by (induction s) (simp_all add: scan_json_escape)

lemma scan_json_quote: "scan Outside (json_quote s @ t) = scan Outside t"
  using scan_escaped [of s "CHR 0x22 # t"] by (simp add: json_quote_def)

lemma json_quote_unique:
  "json_quote s1 @ r1 = json_quote s2 @ r2 \<Longrightarrow> s1 = s2 \<and> r1 = r2"
proof -
  have body: "concat (map json_escape s1) @ CHR 0x22 # r1 = concat (map json_escape s2) @ CHR 0x22 # r2
      \<Longrightarrow> s1 = s2 \<and> r1 = r2"
  proof (induction s1 arbitrary: s2)
    case Nil
    show ?case
    proof (cases s2)
      case Nil
      with Nil.prems show ?thesis by simp
    next
      case (Cons c s2')
      with Nil.prems have "unescape (CHR 0x22 # r1) =
          unescape (json_escape c @ (concat (map json_escape s2') @ CHR 0x22 # r2))"
        by simp
      then show ?thesis by (simp only: unescape_json_escape) simp
    qed
  next
    case (Cons c s1')
    show ?case
    proof (cases s2)
      case Nil
      with Cons.prems have "unescape (json_escape c @ (concat (map json_escape s1') @ CHR 0x22 # r1))
          = unescape (CHR 0x22 # r2)"
        by simp
      then show ?thesis by (simp only: unescape_json_escape) simp
    next
      case (Cons d s2')
      with Cons.prems have "unescape (json_escape c @ (concat (map json_escape s1') @ CHR 0x22 # r1))
          = unescape (json_escape d @ (concat (map json_escape s2') @ CHR 0x22 # r2))"
        by simp
      then have "c = d" and "concat (map json_escape s1') @ CHR 0x22 # r1
          = concat (map json_escape s2') @ CHR 0x22 # r2"
        by (simp_all only: unescape_json_escape option.inject prod.inject)
      with Cons.IH [of s2'] Cons show ?thesis by simp
    qed
  qed
  assume "json_quote s1 @ r1 = json_quote s2 @ r2"
  then show ?thesis
    by (intro body) (simp add: json_quote_def)
qed

lemma intercalate_Cons:
  "intercalate sep (x # xs) = x @ (if xs = [] then [] else sep @ intercalate sep xs)"
  by (cases xs) simp_all

lemma show_nat_chars: "ch \<in> set (show_nat n) \<Longrightarrow> is_digit ch"
  using show_nat_digits [of n] by (simp add: list_all_iff)

lemma show_int_chars: "ch \<in> set (show_int n) \<Longrightarrow> is_digit ch \<or> ch = CHR ''-''"
  by (auto simp add: show_int_def dest: show_nat_chars split: if_splits)

lemma show_int_not_Nil: "show_int n \<noteq> []"
  by (simp add: show_int_def show_nat_not_Nil)

lemma show_int_hd: "show_int n = x # xs \<Longrightarrow> is_digit x \<or> x = CHR ''-''"
  using show_int_chars [of x n] by simp

lemma show_int_injective: "show_int m = show_int n \<Longrightarrow> m = n"
proof -
  assume eq: "show_int m = show_int n"
  have minus: "\<And>a b. CHR ''-'' # show_nat a \<noteq> show_nat b"
  proof
    fix a b assume "CHR ''-'' # show_nat a = show_nat b"
    then have "CHR ''-'' \<in> set (show_nat b)" by (metis list.set_intros(1))
    then have "is_digit (CHR ''-'')" by (rule show_nat_chars)
    then show False by (simp add: is_digit_def)
  qed
  show ?thesis
  proof (cases "m < 0")
    case True
    show ?thesis
    proof (cases "n < 0")
      case True
      with \<open>m < 0\<close> eq have "nat (- m) = nat (- n)"
        by (simp add: show_int_def show_nat_inj)
      with True \<open>m < 0\<close> show ?thesis by simp
    next
      case False
      with True eq minus show ?thesis by (simp add: show_int_def)
    qed
  next
    case False
    show ?thesis
    proof (cases "n < 0")
      case True
      with False eq minus [of "nat (- n)" "nat m"] show ?thesis by (simp add: show_int_def)
    next
      case nonneg: False
      with False eq have "nat m = nat n"
        by (simp add: show_int_def show_nat_inj)
      with False nonneg show ?thesis by simp
    qed
  qed
qed

lemma same_run:
  assumes "u @ r1 = v @ r2"
    and "\<forall>ch\<in>set u. P ch" and "\<forall>ch\<in>set v. P ch"
    and "r1 = x1 # t1" "\<not> P x1" and "r2 = x2 # t2" "\<not> P x2"
  shows "u = v \<and> r1 = r2"
proof -
  have "takeWhile P (u @ r1) = u"
    using assms(2,4,5) by (simp add: takeWhile_tail)
  moreover have "takeWhile P (v @ r2) = v"
    using assms(3,6,7) by (simp add: takeWhile_tail)
  ultimately have "u = v" using assms(1) by simp
  with assms(1) show ?thesis by simp
qed

lemma closes_not_number: "closes r \<Longrightarrow> \<exists>x t. r = x # t \<and> \<not> (is_digit x \<or> x = CHR ''-'')"
proof -
  assume "closes r"
  then obtain t where "r = CHR '','' # t \<or> r = CHR ''}'' # t"
    unfolding closes_def by blast
  then show ?thesis
  proof
    assume "r = CHR '','' # t"
    moreover have "\<not> (is_digit (CHR '','') \<or> CHR '','' = CHR ''-'')"
      by (simp add: is_digit_def)
    ultimately show ?thesis by blast
  next
    assume "r = CHR ''}'' # t"
    moreover have "\<not> (is_digit (CHR ''}'') \<or> CHR ''}'' = CHR ''-'')"
      by (simp add: is_digit_def)
    ultimately show ?thesis by blast
  qed
qed

lemma show_int_unique:
  assumes "show_int m @ r1 = show_int n @ r2" and "closes r1" and "closes r2"
  shows "m = n \<and> r1 = r2"
proof -
  from closes_not_number [OF assms(2)] obtain x1 t1 where
    r1: "r1 = x1 # t1" "\<not> (is_digit x1 \<or> x1 = CHR ''-'')" by blast
  from closes_not_number [OF assms(3)] obtain x2 t2 where
    r2: "r2 = x2 # t2" "\<not> (is_digit x2 \<or> x2 = CHR ''-'')" by blast
  have "show_int m = show_int n \<and> r1 = r2"
    using assms(1) _ _ r1 r2
    by (rule same_run) (auto dest: show_int_chars)
  then show ?thesis by (auto dest: show_int_injective)
qed

lemma closes_cases: "closes r \<Longrightarrow> \<exists>x t. r = x # t \<and> (x = CHR '','' \<or> x = CHR ''}'')"
  unfolding closes_def by blast

lemma json_quote_hd: "\<exists>t. json_quote s = CHR 0x22 # t"
  by (simp add: json_quote_def)

lemma digit_not_letter:
  "is_digit x \<or> x = CHR ''-'' \<Longrightarrow>
     x \<noteq> CHR ''n'' \<and> x \<noteq> CHR ''t'' \<and> x \<noteq> CHR ''f'' \<and> x \<noteq> CHR 0x22 \<and> x \<noteq> CHR 0x5C \<and> x \<noteq> CHR ''#''"
  by (auto simp add: is_digit_def)

lemma number_vs:
  assumes "show_int n @ r = x # t"
  shows "x \<noteq> CHR ''n'' \<and> x \<noteq> CHR ''t'' \<and> x \<noteq> CHR ''f'' \<and> x \<noteq> CHR 0x22"
proof -
  obtain y ys where y: "show_int n = y # ys"
    using show_int_not_Nil [of n] by (cases "show_int n") auto
  with assms have "x = y" by simp
  with show_int_hd [OF y] digit_not_letter [of y] show ?thesis by simp
qed

lemma number_vs':
  assumes "x # t = show_int n @ r"
  shows "x \<noteq> CHR ''n'' \<and> x \<noteq> CHR ''t'' \<and> x \<noteq> CHR ''f'' \<and> x \<noteq> CHR 0x22"
  using number_vs [OF assms [symmetric]] .

lemma stringify_unique:
  assumes "stringify v1 @ r1 = stringify v2 @ r2"
    and "primitive v1" "v1 \<noteq> Undefined" and "primitive v2" "v2 \<noteq> Undefined"
    and "closes r1" and "closes r2"
  shows "v1 = v2 \<and> r1 = r2"
proof (cases v1)
  case Undefined
  with assms show ?thesis by simp
next
  case Null
  show ?thesis
  proof (cases v2)
    case (Num n)
    with Null assms(1) show ?thesis
      by (auto simp add: json_quote_def split: if_splits dest: number_vs number_vs')
  next
    case (Str s)
    with Null assms(1) show ?thesis by (simp add: json_quote_def)
  qed (use Null assms in \<open>auto split: if_splits\<close>)
next
  case (Bool b)
  show ?thesis
  proof (cases v2)
    case (Num n)
    with Bool assms(1) show ?thesis
      by (auto simp add: json_quote_def split: if_splits dest: number_vs number_vs')
  next
    case (Str s)
    with Bool assms(1) show ?thesis by (simp add: json_quote_def split: if_splits)
  qed (use Bool assms in \<open>auto split: if_splits\<close>)
next
  case (Num n)
  show ?thesis
  proof (cases v2)
    case Null
    with Num assms(1) show ?thesis
      by (auto simp add: json_quote_def split: if_splits dest: number_vs number_vs')
  next
    case (Bool b)
    with Num assms(1) show ?thesis
      by (auto simp add: json_quote_def split: if_splits dest: number_vs number_vs')
  next
    case (Num m)
    with \<open>v1 = Num n\<close> assms(1) have "show_int n @ r1 = show_int m @ r2" by simp
    from show_int_unique [OF this assms(6) assms(7)] Num \<open>v1 = Num n\<close> show ?thesis by simp
  next
    case (Str s)
    with Num assms(1) show ?thesis
      by (auto simp add: json_quote_def split: if_splits dest: number_vs number_vs')
  qed (use assms in simp_all)
next
  case (Str s)
  show ?thesis
  proof (cases v2)
    case Null
    with Str assms(1) show ?thesis by (simp add: json_quote_def)
  next
    case (Bool b)
    with Str assms(1) show ?thesis by (simp add: json_quote_def split: if_splits)
  next
    case (Num n)
    with Str assms(1) show ?thesis
      by (auto simp add: json_quote_def split: if_splits dest: number_vs number_vs')
  next
    case (Str s')
    with \<open>v1 = Str s\<close> assms(1) have "json_quote s @ r1 = json_quote s' @ r2" by simp
    from json_quote_unique [OF this] Str \<open>v1 = Str s\<close> show ?thesis by simp
  qed (use assms in simp_all)
next
  case (Arr xs)
  with assms show ?thesis by simp
next
  case (Obj ps)
  with assms show ?thesis by simp
qed

lemma json_entry_unique:
  assumes "json_entry e1 @ r1 = json_entry e2 @ r2"
    and "primitive (snd e1)" "snd e1 \<noteq> Undefined" and "primitive (snd e2)" "snd e2 \<noteq> Undefined"
    and "closes r1" and "closes r2"
  shows "e1 = e2 \<and> r1 = r2"
proof -
  from assms(1) have "json_quote (fst e1) @ ('':'' @ stringify (snd e1) @ r1)
      = json_quote (fst e2) @ ('':'' @ stringify (snd e2) @ r2)"
    by (simp add: json_entry_def)
  from json_quote_unique [OF this] have k: "fst e1 = fst e2"
    and "stringify (snd e1) @ r1 = stringify (snd e2) @ r2"
    by simp_all
  from stringify_unique [OF this(2) assms(2-7)] k show ?thesis
    by (simp add: prod_eq_iff)
qed

lemma own_props_plain:
  assumes "\<forall>(k, v)\<in>set ws. array_index k = None"
  shows "own_props ws = ws"
proof -
  have "index_props ws = []"
    using assms by (induction ws) (auto simp add: index_props_def)
  moreover have "name_props ws = ws"
    using assms by (auto simp add: name_props_def filter_id_conv)
  ultimately show ?thesis by (simp add: own_props_def)
qed

lemma stringify_plain:
  assumes "plain_params ps"
  shows "stringify (Obj ps) = ''{'' @ intercalate '','' (map json_entry (defined_params ps)) @ ''}''"
proof -
  let ?ws = "map (\<lambda>(k, v). (k, stringify v)) (filter (\<lambda>(k, v). v \<noteq> Undefined) ps)"
  have "\<forall>(k, v)\<in>set ?ws. array_index k = None"
    using assms by (auto simp add: plain_params_def)
  then have "own_props ?ws = ?ws" by (rule own_props_plain)
  moreover have "map (\<lambda>(k, s). json_quote k @ '':'' @ s) ?ws = map json_entry (defined_params ps)"
    by (simp add: defined_params_def json_entry_def split_beta comp_def)
  ultimately show ?thesis by simp
qed

lemma defined_params_ok: "plain_params ps \<Longrightarrow> entries_ok (defined_params ps)"
  by (auto simp add: plain_params_def entries_ok_def defined_params_def)

lemma json_entry_hd: "\<exists>t. json_entry e @ r = CHR 0x22 # t"
  by (simp add: json_entry_def json_quote_def)

lemma closes_tail:
  "closes ((if es = [] then [] else '','' @ intercalate '','' (map json_entry es)) @ ''}'')"
  by (simp add: closes_def)

lemma entries_unique:
  assumes "intercalate '','' (map json_entry es1) @ ''}'' = intercalate '','' (map json_entry es2) @ ''}''"
    and "entries_ok es1" and "entries_ok es2"
  shows "es1 = es2"
  using assms
proof (induction es1 arbitrary: es2)
  case Nil
  show ?case
  proof (cases es2)
    case Nil
    then show ?thesis by simp
  next
    case (Cons e es)
    from json_entry_hd [of e "(if es = [] then [] else '','' @ intercalate '','' (map json_entry es)) @ ''}''"]
    obtain t where "json_entry e @ (if es = [] then [] else '','' @ intercalate '','' (map json_entry es)) @ ''}''
        = CHR 0x22 # t" by blast
    with Nil.prems(1) Cons show ?thesis
      by (simp add: intercalate_Cons split: if_splits)
  qed
next
  case (Cons e1 es1')
  let ?r1 = "(if es1' = [] then [] else '','' @ intercalate '','' (map json_entry es1')) @ ''}''"
  show ?case
  proof (cases es2)
    case Nil
    from json_entry_hd [of e1 ?r1] obtain t where "json_entry e1 @ ?r1 = CHR 0x22 # t" by blast
    with Cons.prems(1) Nil show ?thesis
      by (simp add: intercalate_Cons split: if_splits)
  next
    case (Cons e2 es2')
    let ?r2 = "(if es2' = [] then [] else '','' @ intercalate '','' (map json_entry es2')) @ ''}''"
    from Cons.prems(1) Cons have eq: "json_entry e1 @ ?r1 = json_entry e2 @ ?r2"
      by (simp add: intercalate_Cons)
    have ok1: "primitive (snd e1)" "snd e1 \<noteq> Undefined" "entries_ok es1'"
      using Cons.prems(2) by (simp_all add: entries_ok_def)
    have ok2: "primitive (snd e2)" "snd e2 \<noteq> Undefined" "entries_ok es2'"
      using Cons.prems(3) Cons by (simp_all add: entries_ok_def)
    from json_entry_unique [OF eq ok1(1,2) ok2(1,2) closes_tail closes_tail]
    have e: "e1 = e2" and r: "?r1 = ?r2" by simp_all
    have "es1' = es2'"
    proof (cases "es1' = []")
      case True
      with r show ?thesis by (simp split: if_splits)
    next
      case False
      with r have "es2' \<noteq> []" by (auto split: if_splits)
      with False r have "intercalate '','' (map json_entry es1') @ ''}''
          = intercalate '','' (map json_entry es2') @ ''}''"
        by simp
      from Cons.IH [OF this ok1(3) ok2(3)] show ?thesis .
    qed
    with e Cons show ?thesis by simp
  qed
qed

lemma stringify_plain_unique:
  assumes "plain_params ps1" and "plain_params ps2"
  shows "(stringify (Obj ps1) = stringify (Obj ps2)) = (defined_params ps1 = defined_params ps2)"
proof
  assume "stringify (Obj ps1) = stringify (Obj ps2)"
  then have "''{'' @ intercalate '','' (map json_entry (defined_params ps1)) @ ''}''
      = ''{'' @ intercalate '','' (map json_entry (defined_params ps2)) @ ''}''"
    by (simp only: stringify_plain [OF assms(1)] stringify_plain [OF assms(2)])
  then have "intercalate '','' (map json_entry (defined_params ps1)) @ ''}''
      = intercalate '','' (map json_entry (defined_params ps2)) @ ''}''"
    by simp
  then show "defined_params ps1 = defined_params ps2"
    using defined_params_ok [OF assms(1)] defined_params_ok [OF assms(2)]
    by (rule entries_unique)
next
  assume "defined_params ps1 = defined_params ps2"
  then show "stringify (Obj ps1) = stringify (Obj ps2)"
    by (simp only: stringify_plain [OF assms(1)] stringify_plain [OF assms(2)])
qed

lemma scan_append:
  "scan s (u @ v) = (case scan s u of None \<Rightarrow> None | Some s' \<Rightarrow> scan s' v)"
  by (induction u arbitrary: s) (simp_all split: option.splits)

lemma scan_plain_chars:
  assumes "\<forall>ch\<in>set u. ch \<noteq> CHR 0x22 \<and> ch \<noteq> CHR 0x5C \<and> ch \<noteq> CHR ''#''"
  shows "scan Outside (u @ t) = scan Outside t"
  using assms by (induction u) simp_all

lemma scan_show_int: "scan Outside (show_int n @ t) = scan Outside t"
proof (rule scan_plain_chars)
  show "\<forall>ch\<in>set (show_int n). ch \<noteq> CHR 0x22 \<and> ch \<noteq> CHR 0x5C \<and> ch \<noteq> CHR ''#''"
    using show_int_chars digit_not_letter by blast
qed

lemma scan_value:
  assumes "primitive v" and "v \<noteq> Undefined"
  shows "scan Outside (stringify v @ t) = scan Outside t"
  using assms by (cases v) (simp_all add: scan_show_int scan_json_quote)

lemma scan_entry:
  assumes "primitive (snd e)" and "snd e \<noteq> Undefined"
  shows "scan Outside (json_entry e @ t) = scan Outside t"
proof -
  have "scan Outside (json_entry e @ t)
      = scan Outside (json_quote (fst e) @ (CHR '':'' # stringify (snd e) @ t))"
    by (simp add: json_entry_def)
  also have "\<dots> = scan Outside (stringify (snd e) @ t)"
    by (simp only: scan_json_quote) simp
  also have "\<dots> = scan Outside t"
    by (rule scan_value [OF assms])
  finally show ?thesis .
qed

lemma scan_entries:
  assumes "entries_ok es"
  shows "scan Outside (intercalate '','' (map json_entry es) @ t) = scan Outside t"
  using assms
proof (induction es)
  case Nil
  show ?case by simp
next
  case (Cons e es)
  then have e: "primitive (snd e)" "snd e \<noteq> Undefined" and es: "entries_ok es"
    by (simp_all add: entries_ok_def)
  show ?case
  proof (cases "es = []")
    case True
    then show ?thesis by (simp add: scan_entry [OF e])
  next
    case False
    then have "intercalate '','' (map json_entry (e # es)) @ t
        = json_entry e @ (CHR '','' # intercalate '','' (map json_entry es) @ t)"
      by (simp add: intercalate_Cons)
    then show ?thesis
      using Cons.IH [OF es] by (simp add: scan_entry [OF e])
  qed
qed

lemma scan_object:
  assumes "plain_params ps"
  shows "scan Outside (stringify (Obj ps)) = Some Outside"
proof -
  have "scan Outside (stringify (Obj ps))
      = scan Outside (CHR ''{'' # intercalate '','' (map json_entry (defined_params ps)) @ ''}'')"
    by (simp only: stringify_plain [OF assms]) simp
  also have "\<dots> = scan Outside (intercalate '','' (map json_entry (defined_params ps)) @ ''}'')"
    by simp
  also have "\<dots> = scan Outside ''}''"
    by (rule scan_entries [OF defined_params_ok [OF assms]])
  finally show ?thesis by simp
qed

lemma scan_parity:
  "\<not> (scan Inside w = Some Outside \<and> scan Outside w = Some Outside)"
proof (induction w)
  case Nil
  show ?case by simp
next
  case (Cons ch w)
  then show ?case by auto
qed

lemma prefix_no_hash:
  assumes "CHR ''#'' \<notin> set u" and "u @ a = y @ CHR ''#'' # b"
  shows "\<exists>z. y = u @ z"
  using assms
proof (induction u arbitrary: y)
  case Nil
  show ?case by simp
next
  case (Cons ch u)
  show ?case
  proof (cases y)
    case Nil
    with Cons.prems show ?thesis by simp
  next
    case (Cons d y')
    with Cons.prems have "ch = d" and "u @ a = y' @ CHR ''#'' # b" by simp_all
    with Cons.IH [of y'] Cons.prems(1) Cons show ?thesis by auto
  qed
qed

lemma params_shift:
  assumes "''#params:'' @ j = us @ ''#params:'' @ j'"
    and "scan Outside j = Some Outside" and "scan Outside j' = Some Outside"
  shows "us = []"
proof (rule ccontr)
  assume "us \<noteq> []"
  then obtain x us' where us: "us = x # us'" by (cases us) auto
  with assms(1) have "''params:'' @ j = us' @ CHR ''#'' # (''params:'' @ j')"
    by simp
  moreover have "CHR ''#'' \<notin> set ''params:''" by simp
  ultimately obtain z where z: "us' = ''params:'' @ z"
    using prefix_no_hash by blast
  with assms(1) us have j: "j = z @ CHR ''#'' # ''params:'' @ j'" by simp
  from assms(2) obtain s where s: "scan Outside z = Some s"
    and rest: "scan s (CHR ''#'' # ''params:'' @ j') = Some Outside"
    unfolding j scan_append by (auto split: option.splits)
  have "s = Inside"
    using rest by (cases s) simp_all
  with rest have "scan Inside j' = Some Outside" by simp
  with assms(3) scan_parity [of j'] show False by simp
qed

lemma key_params_unique:
  assumes "k1 @ ''#params:'' @ j1 = k2 @ ''#params:'' @ j2"
    and "scan Outside j1 = Some Outside" and "scan Outside j2 = Some Outside"
  shows "k1 = k2 \<and> j1 = j2"
proof -
  from assms(1) obtain us where
    "(k1 = k2 @ us \<and> us @ ''#params:'' @ j1 = ''#params:'' @ j2)
     \<or> (k1 @ us = k2 \<and> ''#params:'' @ j1 = us @ ''#params:'' @ j2)"
    unfolding append_eq_append_conv2 by blast
  then show ?thesis
  proof
    assume a: "k1 = k2 @ us \<and> us @ ''#params:'' @ j1 = ''#params:'' @ j2"
    then have "''#params:'' @ j2 = us @ ''#params:'' @ j1" by simp
    from params_shift [OF this assms(3) assms(2)] a show ?thesis by simp
  next
    assume a: "k1 @ us = k2 \<and> ''#params:'' @ j1 = us @ ''#params:'' @ j2"
    then have "''#params:'' @ j1 = us @ ''#params:'' @ j2" by simp
    from params_shift [OF this assms(2) assms(3)] a show ?thesis by simp
  qed
qed

lemma cacheKey_unique:
  assumes "plain_params ps1" and "plain_params ps2"
  shows "(cacheKey path k1 ps1 = cacheKey path k2 ps2)
           = (key_of k1 = key_of k2 \<and> defined_params ps1 = defined_params ps2)"
proof -
  note v1 = scan_object [OF assms(1)] and v2 = scan_object [OF assms(2)]
  note inj = stringify_plain_unique [OF assms]
  show ?thesis
  proof (cases "has_key k1")
    case True
    then obtain a where k1: "k1 = Some a" "a \<noteq> []"
      by (cases k1) (auto simp add: has_key_def)
    show ?thesis
    proof (cases "has_key k2")
      case True
      then obtain b where k2: "k2 = Some b" "b \<noteq> []"
        by (cases k2) (auto simp add: has_key_def)
      have "(cacheKey path k1 ps1 = cacheKey path k2 ps2)
          = (a @ ''#params:'' @ stringify (Obj ps1) = b @ ''#params:'' @ stringify (Obj ps2))"
        using k1 k2 by (simp add: cacheKey_def has_key_def del: stringify.simps)
      also have "\<dots> = (a = b \<and> stringify (Obj ps1) = stringify (Obj ps2))"
        using key_params_unique [OF _ v1 v2, of a b] by auto
      finally show ?thesis
        using k1 k2 by (simp add: inj key_of_def has_key_def del: stringify.simps)
    next
      case False
      then have "cacheKey path k1 ps1 \<noteq> cacheKey path k2 ps2"
        using k1 by (simp add: cacheKey_def has_key_def del: stringify.simps)
      moreover have "key_of k1 \<noteq> key_of k2"
        using False k1 by (simp add: key_of_def has_key_def)
      ultimately show ?thesis by simp
    qed
  next
    case False
    show ?thesis
    proof (cases "has_key k2")
      case True
      then obtain b where k2: "k2 = Some b" "b \<noteq> []"
        by (cases k2) (auto simp add: has_key_def)
      have "cacheKey path k1 ps1 \<noteq> cacheKey path k2 ps2"
        using False k2 by (simp add: cacheKey_def has_key_def del: stringify.simps)
      moreover have "key_of k1 \<noteq> key_of k2"
        using False k2 by (simp add: key_of_def has_key_def)
      ultimately show ?thesis by simp
    next
      case no: False
      with False show ?thesis
        by (simp add: cacheKey_def key_of_def inj del: stringify.simps)
    qed
  qed
qed

lemma set_prop_absent: "k \<notin> fst ` set ps \<Longrightarrow> set_prop ps k v = ps @ [(k, v)]"
  by (induction ps) auto

lemma set_prop_present:
  "distinct (map fst ps) \<Longrightarrow> k \<in> fst ` set ps \<Longrightarrow>
     set_prop ps k v = map (\<lambda>(n, w). if n = k then (n, v) else (n, w)) ps"
proof (induction ps)
  case Nil
  then show ?case by simp
next
  case (Cons a ps)
  obtain n w where a: "a = (n, w)" by (cases a)
  show ?case
  proof (cases "n = k")
    case True
    with Cons.prems a have "k \<notin> fst ` set ps" by auto
    then have "map (\<lambda>(n, w). if n = k then (n, v) else (n, w)) ps = ps"
      by (induction ps) auto
    with True a show ?thesis by simp
  next
    case False
    with Cons a show ?thesis by auto
  qed
qed

lemma array_index_lang: "array_index ''lang'' = None"
  by code_simp

lemma plain_with_lang:
  assumes "plain_params ps"
  shows "plain_params (with_lang c ps)"
proof (cases "truthy (case get_prop ps ''lang'' of Some v \<Rightarrow> v | None \<Rightarrow> Undefined)")
  case True
  with assms show ?thesis by (simp add: with_lang_def)
next
  case False
  have d: "distinct (map fst (set_prop ps ''lang'' (Str (defaultLang (config c)))))"
    using assms by (simp add: plain_params_def distinct_set_prop)
  have "set (set_prop ps ''lang'' (Str (defaultLang (config c))))
      \<subseteq> insert (''lang'', Str (defaultLang (config c))) (set ps)"
    by (induction ps) (auto split: if_splits)
  with assms have "\<forall>(k, v)\<in>set (set_prop ps ''lang'' (Str (defaultLang (config c)))).
      array_index k = None \<and> primitive v"
    using array_index_lang by (auto simp add: plain_params_def)
  with d False show ?thesis by (simp add: with_lang_def plain_params_def)
qed

lemma defined_with_lang:
  assumes "distinct (map fst ps)"
  shows "defined_params (with_lang c ps) = request_properties c (ParamsObject ps)"
proof (cases "''lang'' \<in> fst ` set ps")
  case False
  then have "map_of ps ''lang'' = None"
    by (simp add: map_of_eq_None_iff)
  with False show ?thesis
    by (simp add: with_lang_def get_prop_def set_prop_absent request_properties_def
        defined_params_def)
next
  case True
  then obtain v where v: "map_of ps ''lang'' = Some v"
    by (cases "map_of ps ''lang''") (auto simp add: map_of_eq_None_iff)
  show ?thesis
  proof (cases "truthy v")
    case False
    have "map (\<lambda>(n, w). if n = ''lang'' then (n, Str (defaultLang (config c))) else (n, w)) ps
        = map (\<lambda>(n, w). if n = ''lang'' \<and> \<not> truthy w then (n, Str (defaultLang (config c))) else (n, w)) ps"
    proof (rule map_cong [OF refl])
      fix x assume x: "x \<in> set ps"
      obtain n w where nw: "x = (n, w)" by (cases x)
      have "n = ''lang'' \<Longrightarrow> w = v"
        using x nw v assms by simp
      with False nw show "(case x of (n, w) \<Rightarrow>
            if n = ''lang'' then (n, Str (defaultLang (config c))) else (n, w))
          = (case x of (n, w) \<Rightarrow>
            if n = ''lang'' \<and> \<not> truthy w then (n, Str (defaultLang (config c))) else (n, w))"
        by auto
    qed
    then have m: "map (\<lambda>(n, w). if n = ''lang'' \<and> \<not> truthy w then (n, Str (defaultLang (config c))) else (n, w)) ps
        = map (\<lambda>(n, w). if n = ''lang'' then (n, Str (defaultLang (config c))) else (n, w)) ps"
      by (rule sym)
    have w: "with_lang c ps
        = map (\<lambda>(n, w). if n = ''lang'' then (n, Str (defaultLang (config c))) else (n, w)) ps"
      using False True v assms by (simp add: with_lang_def get_prop_def set_prop_present)
    have "request_properties c (ParamsObject ps)
        = filter (\<lambda>(n, v). v \<noteq> Undefined)
            (map (\<lambda>(n, w). if n = ''lang'' \<and> \<not> truthy w then (n, Str (defaultLang (config c))) else (n, w)) ps)"
      using True by (simp add: request_properties_def)
    then show ?thesis
      by (simp only: w m defined_params_def)
  next
    case t: True
    have "map (\<lambda>(n, w). if n = ''lang'' \<and> \<not> truthy w then (n, Str (defaultLang (config c))) else (n, w)) ps = ps"
    proof (rule map_idI)
      fix x assume x: "x \<in> set ps"
      obtain n w where nw: "x = (n, w)" by (cases x)
      have "n = ''lang'' \<Longrightarrow> w = v"
        using x nw v assms by simp
      with t nw show "(case x of (n, w) \<Rightarrow>
          if n = ''lang'' \<and> \<not> truthy w then (n, Str (defaultLang (config c))) else (n, w)) = x"
        by auto
    qed
    with True v t show ?thesis
      by (simp add: with_lang_def get_prop_def request_properties_def defined_params_def)
  qed
qed

lemma effective_plain:
  assumes "plain_request p"
  shows "plain_params (effective_params c p k)"
proof -
  have "plain_params []" by (simp add: plain_params_def)
  with assms show ?thesis
    by (cases p) (simp_all add: plain_request_def effective_params_def shift_params_def
        plain_with_lang)
qed

lemma effective_defined:
  assumes "plain_request p"
  shows "defined_params (effective_params c p k) = request_properties c p"
proof (cases p)
  case (ParamsObject ps)
  with assms have "distinct (map fst ps)" by (simp add: plain_request_def plain_params_def)
  from defined_with_lang [OF this] ParamsObject show ?thesis
    by (simp add: effective_params_def shift_params_def)
next
  case (ParamsKey a)
  have "defined_params (with_lang c []) = request_properties c (ParamsObject [])"
    by (rule defined_with_lang) simp
  with ParamsKey show ?thesis
    by (simp add: effective_params_def shift_params_def request_properties_def)
next
  case ParamsAbsent
  have "defined_params (with_lang c []) = request_properties c (ParamsObject [])"
    by (rule defined_with_lang) simp
  with ParamsAbsent show ?thesis
    by (simp add: effective_params_def shift_params_def request_properties_def)
qed

lemma effective_api_key: "key_of (effective_key p k) = request_api_key p k"
  by (cases p; cases k)
    (simp_all add: effective_key_def shift_params_def key_of_def has_key_def request_api_key_def)

subsection \<open>The claim\<close>

text \<open>
  C8 (as amended). For one resource path and two plain requests (parameter objects with
  distinct property names, none an array index, and values that are \<^verbatim>\<open>undefined\<close>, \<^verbatim>\<open>null\<close>,
  booleans, integers or strings), the two cache keys are the same string exactly when the
  requests have the same API key and the same properties with the same values in the same
  insertion order. The API key is the third argument, or the second when a string stands
  in the place of the parameters, an empty key counting as none. The properties are those
  of the parameter object that have a value, with the client's default language as
  \<^verbatim>\<open>lang\<close> unless the object has a truthy \<^verbatim>\<open>lang\<close>. So two requests to one path that differ
  in language, in API key or in the value of a parameter get different keys; and two
  parameter objects with the same pairs inserted in a different order get different keys
  too, since \<^verbatim>\<open>JSON.stringify\<close> writes properties in insertion order.
\<close>

theorem collection_key_unique:
  assumes "plain_request p1" and "plain_request p2"
  shows "(collection_key c1 path p1 k1 = collection_key c2 path p2 k2)
           = (request_api_key p1 k1 = request_api_key p2 k2
              \<and> request_properties c1 p1 = request_properties c2 p2)"
proof -
  have "(collection_key c1 path p1 k1 = collection_key c2 path p2 k2)
      = (key_of (effective_key p1 k1) = key_of (effective_key p2 k2)
         \<and> defined_params (effective_params c1 p1 k1) = defined_params (effective_params c2 p2 k2))"
    unfolding collection_key_def
    by (rule cacheKey_unique [OF effective_plain [OF assms(1)] effective_plain [OF assms(2)]])
  then show ?thesis
    by (simp only: effective_api_key effective_defined [OF assms(1)] effective_defined [OF assms(2)])
qed

text \<open>
  The amended C8 for: two clients whose default languages are \<^verbatim>\<open>en\<close> and \<^verbatim>\<open>de\<close> and a
  request without parameters, which get different keys; an API key in the place of the
  parameters, which gets the key of the same API key in its own place and not the key of a
  request without API key; and a property without a value, which does not change the key.
\<close>

theorem collection_key_unique_witness:
  "plain_request ParamsAbsent
   \<and> collection_key (client_lang ''en'') ''items'' ParamsAbsent None
       \<noteq> collection_key (client_lang ''de'') ''items'' ParamsAbsent None
   \<and> plain_request (ParamsKey ''K'')
   \<and> plain_request (ParamsObject [])
   \<and> collection_key client0 ''items'' (ParamsKey ''K'') None
       = collection_key client0 ''items'' (ParamsObject []) (Some ''K'')
   \<and> collection_key client0 ''items'' (ParamsKey ''K'') None
       \<noteq> collection_key client0 ''items'' ParamsAbsent None
   \<and> plain_request (ParamsObject [(''page'', Num 1), (''page_size'', Undefined)])
   \<and> plain_request (ParamsObject [(''page'', Num 1), (''lang'', Str ''en'')])
   \<and> collection_key client0 ''items'' (ParamsObject [(''page'', Num 1), (''page_size'', Undefined)]) (Some ''K'')
       = collection_key (client_lang ''de'') ''items''
           (ParamsObject [(''page'', Num 1), (''lang'', Str ''en'')]) (Some ''K'')"
proof -
  let ?a = "ParamsObject [(''page'', Num 1), (''page_size'', Undefined)]"
  let ?b = "ParamsObject [(''page'', Num 1), (''lang'', Str ''en'')]"
  have h0: "plain_request ParamsAbsent"
    by code_simp
  have p1: "request_properties (client_lang ''en'') ParamsAbsent
      \<noteq> request_properties (client_lang ''de'') ParamsAbsent"
    by code_simp
  have one: "collection_key (client_lang ''en'') ''items'' ParamsAbsent None
      \<noteq> collection_key (client_lang ''de'') ''items'' ParamsAbsent None"
    using collection_key_unique [OF h0 h0, of "client_lang ''en''" "''items''" None "client_lang ''de''" None]
      p1 by blast
  have h1: "plain_request (ParamsKey ''K'')"
    by code_simp
  have h2: "plain_request (ParamsObject [])"
    by code_simp
  have k2: "request_api_key (ParamsKey ''K'') None = request_api_key (ParamsObject []) (Some ''K'')"
    by code_simp
  have p2: "request_properties client0 (ParamsKey ''K'') = request_properties client0 (ParamsObject [])"
    by code_simp
  have two: "collection_key client0 ''items'' (ParamsKey ''K'') None
      = collection_key client0 ''items'' (ParamsObject []) (Some ''K'')"
    using collection_key_unique [OF h1 h2, of client0 "''items''" None client0 "Some ''K''"]
      k2 p2 by blast
  have k3: "request_api_key (ParamsKey ''K'') None \<noteq> request_api_key ParamsAbsent None"
    by code_simp
  have three: "collection_key client0 ''items'' (ParamsKey ''K'') None
      \<noteq> collection_key client0 ''items'' ParamsAbsent None"
    using collection_key_unique [OF h1 h0, of client0 "''items''" None client0 None]
      k3 by blast
  have h3: "plain_request ?a"
    by code_simp
  have h4: "plain_request ?b"
    by code_simp
  have k4: "request_api_key ?a (Some ''K'') = request_api_key ?b (Some ''K'')"
    by code_simp
  have p4: "request_properties client0 ?a = request_properties (client_lang ''de'') ?b"
    by code_simp
  have four: "collection_key client0 ''items'' ?a (Some ''K'')
      = collection_key (client_lang ''de'') ''items'' ?b (Some ''K'')"
    using collection_key_unique [OF h3 h4, of client0 "''items''" "Some ''K''" "client_lang ''de''" "Some ''K''"]
      k4 p4 by blast
  from h0 one h1 h2 two three h3 h4 four show ?thesis by (intro conjI)
qed

text \<open>
  C8 as stated fails: the parameter objects \<^verbatim>\<open>{page: 1, page_size: 2}\<close> and
  \<^verbatim>\<open>{page_size: 2, page: 1}\<close> hold the same pairs and get different keys.
\<close>

theorem collection_key_insertion_order:
  "collection_key client0 ''items'' (ParamsObject [(''page'', Num 1), (''page_size'', Num 2)]) None
     \<noteq> collection_key client0 ''items'' (ParamsObject [(''page_size'', Num 2), (''page'', Num 1)]) None
   \<and> set [(''page'', Num 1), (''page_size'', Num 2)] = set [(''page_size'', Num 2), (''page'', Num 1)]"
  by code_simp

end
